theory Spec2Isabelle
  imports Main "HOL-Library.Word" "HOL-Library.Monad_Syntax" "HOL-Library.Sublist"
begin

section \<open>Go slices and the built-ins the bridge uses\<close>

text \<open>
  A Go \<^verbatim>\<open>[]byte\<close> is a list of 8-bit words. Go's \<^verbatim>\<open>int\<close> is modelled
  by \<^typ>\<open>int\<close>: every integer of the program is a length, a cursor or a sum of two of
  them, far below the 64-bit limit. A slice expression \<^verbatim>\<open>s[lo:hi]\<close> panics unless
  \<open>0 \<le> lo \<le> hi \<le> cap(s)\<close>; all slices the queue indexes come from \<^verbatim>\<open>make\<close>
  with one size, so their capacity is their length. A panic is the value \<open>None\<close>.
\<close>

type_synonym byte = "8 word"
type_synonym bytes = "byte list"

definition slice :: "'a list \<Rightarrow> int \<Rightarrow> int \<Rightarrow> 'a list option" where
  "slice s lo hi =
     (if 0 \<le> lo \<and> lo \<le> hi \<and> hi \<le> int (length s)
      then Some (take (nat (hi - lo)) (drop (nat lo) s)) else None)"

definition slice_from :: "'a list \<Rightarrow> int \<Rightarrow> 'a list option" where
  "slice_from s lo = slice s lo (int (length s))"

definition slice_to :: "'a list \<Rightarrow> int \<Rightarrow> 'a list option" where
  "slice_to s hi = slice s 0 hi"

text \<open>
  \<^verbatim>\<open>copy(dst, src)\<close> overwrites the first \<open>min(len(dst), len(src))\<close> elements of
  \<open>dst\<close> and returns that count. The model returns the count and the new contents of
  \<open>dst\<close>.
\<close>

definition copy :: "'a list \<Rightarrow> 'a list \<Rightarrow> nat \<times> 'a list" where
  "copy dst src = (let n = min (length dst) (length src) in (n, take n src @ drop n dst))"

text \<open>\<^verbatim>\<open>make([]byte, n)\<close>: \<open>n\<close> zero bytes; a negative size panics.\<close>

definition make_bytes :: "int \<Rightarrow> bytes option" where
  "make_bytes n = (if n < 0 then None else Some (replicate (nat n) 0))"

section \<open>The ring queue (\<^verbatim>\<open>brspQueue\<close>)\<close>

record brspQueue =
  data :: bytes
  head :: int
  tail :: int

definition zeroQueue :: brspQueue where
  "zeroQueue = \<lparr>data = [], head = 0, tail = 0\<rparr>"

definition queued :: "brspQueue \<Rightarrow> int" where
  "queued q =
     (if head q \<ge> tail q then head q - tail q
      else int (length (data q)) + head q - tail q)"

text \<open>
  \<^verbatim>\<open>read(p)\<close> returns the count \<open>n\<close>, the contents of the caller's buffer \<open>p\<close> after
  the copies, and the queue. In the wrapped branch the second copy goes to \<^verbatim>\<open>p[n:]\<close>,
  which leaves the first \<open>n\<close> elements of \<open>p\<close> as the first copy wrote them.
\<close>

definition read :: "bytes \<Rightarrow> brspQueue \<Rightarrow> (int \<times> bytes \<times> brspQueue) option" where
  "read p q = do {
     (n, p1, q1) \<leftarrow>
       (if head q \<ge> tail q then do {
          src \<leftarrow> slice (data q) (tail q) (head q);
          let (n, p') = copy p src;
          Some (int n, p', q\<lparr>tail := tail q + int n\<rparr>)
        } else do {
          src \<leftarrow> slice_from (data q) (tail q);
          let (n, p') = copy p src;
          let q' = q\<lparr>tail := tail q + int n\<rparr>;
          if tail q' = int (length (data q')) then do {
            src2 \<leftarrow> slice_to (data q') (head q');
            let (m, p2) = copy (drop n p') src2;
            Some (int n + int m, take n p' @ p2, q'\<lparr>tail := int m\<rparr>)
          } else Some (int n, p', q')
        });
     Some (n, p1, if tail q1 = head q1 then q1\<lparr>head := 0, tail := 0\<rparr> else q1)
   }"

text \<open>
  \<^verbatim>\<open>write(p)\<close>, named \<open>write_q\<close> here (\<open>write\<close> is a keyword of Isabelle). The growth branch reads the whole queue into the new buffer (the
  cursors that \<open>read\<close> leaves are overwritten right after). \<^verbatim>\<open>copy(q.data[q.head:], p)\<close>
  writes into the backing array from offset \<open>head\<close> on.
\<close>

definition copy_at :: "bytes \<Rightarrow> int \<Rightarrow> bytes \<Rightarrow> bytes option" where
  "copy_at d off src = do {
     dst \<leftarrow> slice_from d off;
     Some (take (nat off) d @ snd (copy dst src))
   }"

definition write_q :: "bytes \<Rightarrow> brspQueue \<Rightarrow> brspQueue option" where
  "write_q p q = do {
     let space = int (length (data q)) - queued q;
     q1 \<leftarrow>
       (if int (length p) \<ge> space then do {
          let need = int (length p) - space + 1;
          let need = (if need < 256 then 256 else need);
          buf \<leftarrow> make_bytes (int (length (data q)) + need);
          (n, buf', _) \<leftarrow> read buf q;
          Some \<lparr>data = buf', head = n, tail = 0\<rparr>
        } else Some q);
     let n = int (length (data q1)) - head q1;
     (p2, q2) \<leftarrow>
       (if n < int (length p) then do {
          d \<leftarrow> copy_at (data q1) (head q1) p;
          p' \<leftarrow> slice_from p n;
          Some (p', q1\<lparr>data := d, head := 0\<rparr>)
        } else Some (p, q1));
     d \<leftarrow> copy_at (data q2) (head q2) p2;
     Some (q2\<lparr>data := d, head := head q2 + int (length p2)\<rparr>)
   }"

subsection \<open>Sequences of queue operations\<close>

datatype qop = QWrite bytes | QRead bytes

text \<open>
  \<open>q_exec\<close> runs a sequence of calls and returns the bytes the reads returned
  (\<^verbatim>\<open>p[:n]\<close> of each read, concatenated) and the final queue; \<open>written\<close> is the
  concatenation of the bytes passed to the writes.
\<close>

fun q_exec :: "qop list \<Rightarrow> brspQueue \<Rightarrow> (bytes \<times> brspQueue) option" where
  "q_exec [] q = Some ([], q)"
| "q_exec (QWrite p # ops) q = do { q' \<leftarrow> write_q p q; q_exec ops q' }"
| "q_exec (QRead p # ops) q = do {
     (n, p', q') \<leftarrow> read p q;
     (out, q'') \<leftarrow> q_exec ops q';
     Some (take (nat n) p' @ out, q'')
   }"

fun written :: "qop list \<Rightarrow> bytes" where
  "written [] = []"
| "written (QWrite p # ops) = p @ written ops"
| "written (QRead p # ops) = written ops"

section \<open>The Engine (\<^verbatim>\<open>BRSP\<close>)\<close>

text \<open>
  Go's \<^verbatim>\<open>error\<close> values: the three package errors and the opaque errors of the
  transport, told apart by a number. A \<^verbatim>\<open>nil\<close> error is \<open>None\<close>.
\<close>

datatype error = ErrNotBRSP | ErrTimeout | ErrClosed | TransportError nat

text \<open>
  A reply channel (\<^verbatim>\<open>chan error\<close> of \<open>Flush\<close>, \<^verbatim>\<open>chan brspResult\<close> of
  \<open>Read\<close>) is the number it got when it was made. The fields \<open>data\<close>, \<open>n\<close>, \<open>err\<close>,
  \<open>p\<close>, \<open>r\<close> of the four small structs carry the struct's name as a prefix, since two
  records of one theory cannot share a field name.
\<close>

type_synonym chan = nat

record brspIncoming =
  in_data :: bytes
  in_n :: int
  in_err :: "error option"

record brspOutgoing =
  out_data :: bytes
  out_n :: int

record brspResult =
  res_n :: int
  res_err :: "error option"

record brspRequest =
  req_p :: bytes
  req_r :: chan

text \<open>
  What the Engine sent on reply channels. A read reply also records the contents of the
  caller's buffer \<open>p\<close> at that moment: the Engine writes into the caller's memory.
\<close>

datatype reply = FlushReply chan "error option" | ReadReply chan brspResult bytes

fun reply_chan :: "reply \<Rightarrow> chan" where
  "reply_chan (FlushReply c e) = c"
| "reply_chan (ReadReply c res buf) = c"

text \<open>
  The state: the fields of \<^verbatim>\<open>BRSP\<close> that the Engine mutates, and three fields for
  what it does to the outside: \<open>sent\<close>, the sends on reply channels that completed, in
  order; \<open>wire\<close>, the payloads the Transmission Pump passed to
  \<^verbatim>\<open>WriteCharacteristic(b.brspRx, ...)\<close>, in order; \<open>nextChan\<close>, the number of
  reply channels made so far.
\<close>

record BRSP =
  inQueue :: brspQueue
  outQueue :: brspQueue
  txMode :: bool
  outData :: brspOutgoing
  readReqs :: "brspRequest list"
  flushReqs :: "chan list"
  readError :: "error option"
  writeError :: "error option"
  sent :: "reply list"
  wire :: "bytes list"
  nextChan :: chan

text \<open>The state that \<^verbatim>\<open>OpenBRSP\<close> builds: every field has Go's zero value.\<close>

definition initBRSP :: BRSP where
  "initBRSP = \<lparr>inQueue = zeroQueue, outQueue = zeroQueue, txMode = False,
     outData = \<lparr>out_data = replicate 20 0, out_n = 0\<rparr>,
     readReqs = [], flushReqs = [], readError = None, writeError = None,
     sent = [], wire = [], nextChan = 0\<rparr>"

text \<open>
  A handler ends in one of three ways: it returns (\<open>Done\<close>), it panics, or it blocks
  forever in a send. Reply channels are unbuffered, and the only receive on one is the
  single \<^verbatim>\<open><-c\<close> of the \<open>Flush\<close> or \<open>Read\<close> call that made it
  (\<^verbatim>\<open>err := <-c\<close>, \<^verbatim>\<open>res := <-req.r\<close>). So the first send on a channel
  completes, and any later send on it never does: \<open>Blocked b c\<close> is the Engine stuck in
  state \<open>b\<close> sending on \<open>c\<close>.
\<close>

datatype outcome = Done BRSP | Blocked BRSP chan | Panicked

fun and_then :: "outcome \<Rightarrow> (BRSP \<Rightarrow> outcome) \<Rightarrow> outcome" where
  "and_then (Done b) f = f b"
| "and_then (Blocked b c) f = Blocked b c"
| "and_then Panicked f = Panicked"

fun or_panic :: "'a option \<Rightarrow> ('a \<Rightarrow> outcome) \<Rightarrow> outcome" where
  "or_panic None f = Panicked"
| "or_panic (Some x) f = f x"

definition answered :: "BRSP \<Rightarrow> chan set" where
  "answered b = set (map reply_chan (sent b))"

definition send :: "reply \<Rightarrow> BRSP \<Rightarrow> outcome" where
  "send m b =
     (if reply_chan m \<in> answered b then Blocked b (reply_chan m)
      else Done (b\<lparr>sent := sent b @ [m]\<rparr>))"

text \<open>\<^verbatim>\<open>for _, c := range cs { c <- e }\<close>\<close>

fun send_errors :: "chan list \<Rightarrow> error option \<Rightarrow> BRSP \<Rightarrow> outcome" where
  "send_errors [] e b = Done b"
| "send_errors (c # cs) e b = and_then (send (FlushReply c e) b) (send_errors cs e)"

definition handleFlushReq :: "chan \<Rightarrow> BRSP \<Rightarrow> outcome" where
  "handleFlushReq c b =
     (if txMode b then Done (b\<lparr>flushReqs := flushReqs b @ [c]\<rparr>)
      else and_then (send (FlushReply c (writeError b)) b)
             (\<lambda>b. Done (b\<lparr>writeError := None\<rparr>)))"

text \<open>
  In \<open>handleIncomingData\<close> the first pending request is taken and the rest shifted down
  (\<^verbatim>\<open>copy(b.readReqs, b.readReqs[1:])\<close>, then the list shortened by one).
\<close>

definition handleIncomingData :: "brspIncoming \<Rightarrow> BRSP \<Rightarrow> outcome" where
  "handleIncomingData i b =
     (case readReqs b of
        rr # rest \<Rightarrow>
          let b = b\<lparr>readReqs := rest\<rparr> in
          or_panic (slice_to (in_data i) (in_n i)) (\<lambda>src.
            let (n, p') = copy (req_p rr) src in
            and_then
              (if in_n i > int n
               then or_panic (slice (in_data i) (int n) (in_n i)) (\<lambda>more.
                      or_panic (write_q more (inQueue b)) (\<lambda>q. Done (b\<lparr>inQueue := q\<rparr>)))
               else Done b)
              (send (ReadReply (req_r rr) \<lparr>res_n = int n, res_err = in_err i\<rparr> p')))
      | [] \<Rightarrow>
          or_panic (slice_to (in_data i) (in_n i)) (\<lambda>src.
            or_panic (write_q src (inQueue b)) (\<lambda>q.
              let b = b\<lparr>inQueue := q\<rparr> in
              Done (if in_err i \<noteq> None then b\<lparr>readError := in_err i\<rparr> else b))))"

definition handleOutgoingData :: "BRSP \<Rightarrow> outcome" where
  "handleOutgoingData b =
     or_panic (read (out_data (outData b)) (outQueue b)) (\<lambda>(n, d, q).
       let b = b\<lparr>outQueue := q, outData := (outData b)\<lparr>out_data := d\<rparr>\<rparr> in
       if n > 0 then Done (b\<lparr>outData := (outData b)\<lparr>out_n := n\<rparr>\<rparr>)
       else if out_n (outData b) > 0 then Done (b\<lparr>outData := (outData b)\<lparr>out_n := 0\<rparr>\<rparr>)
       else
         let b = b\<lparr>txMode := False\<rparr> in
         and_then (send_errors (flushReqs b) (writeError b) b)
           (\<lambda>b. Done (b\<lparr>writeError := None\<rparr>)))"

definition handleReadReq :: "brspRequest \<Rightarrow> BRSP \<Rightarrow> outcome" where
  "handleReadReq r b =
     (if queued (inQueue b) > 0 then
        or_panic (read (req_p r) (inQueue b)) (\<lambda>(n, p', q).
          let b = b\<lparr>inQueue := q\<rparr> in
          and_then (send (ReadReply (req_r r) \<lparr>res_n = n, res_err = readError b\<rparr> p') b)
            (\<lambda>b. Done (b\<lparr>readError := None\<rparr>)))
      else Done (b\<lparr>readReqs := readReqs b @ [r]\<rparr>))"

definition handleWriteError :: "error \<Rightarrow> BRSP \<Rightarrow> BRSP" where
  "handleWriteError e b = b\<lparr>writeError := Some e\<rparr>"

definition handleWriteReq :: "bytes \<Rightarrow> BRSP \<Rightarrow> outcome" where
  "handleWriteReq p b =
     or_panic
       (if \<not> txMode b then do {
          let l = int (length p);
          let l = (if l > 20 then 20 else l);
          let (_, d) = copy (out_data (outData b)) p;
          p' \<leftarrow> slice_from p l;
          Some (p', b\<lparr>outData := \<lparr>out_data = d, out_n = l\<rparr>, txMode := True\<rparr>)
        } else Some (p, b))
       (\<lambda>(p, b). or_panic (write_q p (outQueue b)) (\<lambda>q. Done (b\<lparr>outQueue := q\<rparr>)))"

subsection \<open>The Transmission Pump and the notification callback\<close>

text \<open>
  \<open>writer\<close> receives a copy \<open>d\<close> of the current chunk and, when \<open>d.n > 0\<close>, passes
  \<^verbatim>\<open>d.data[:d.n]\<close> to the transport. Whether that write fails is the transport's
  business: a failure comes back to the Engine as a later \<open>EvWriteError\<close>.
\<close>

definition writer :: "brspOutgoing \<Rightarrow> BRSP \<Rightarrow> outcome" where
  "writer d b =
     (if out_n d > 0
      then or_panic (slice_to (out_data d) (out_n d)) (\<lambda>payload.
             Done (b\<lparr>wire := wire b @ [payload]\<rparr>))
      else Done b)"

text \<open>\<open>onTx\<close>, the callback of \<open>init\<close>: at most 20 bytes of a notification are kept.\<close>

definition onTx :: "bytes \<Rightarrow> error option \<Rightarrow> brspIncoming" where
  "onTx d e = (let (n, a) = copy (replicate 20 0) d in \<lparr>in_data = a, in_n = int n, in_err = e\<rparr>)"

subsection \<open>The loop\<close>

text \<open>
  One event is one case of the \<^verbatim>\<open>select\<close> in \<open>loop\<close> being taken. \<open>Read\<close> and
  \<open>Flush\<close> make their reply channel before they send the request, so the events
  \<open>EvReadReq\<close> and \<open>EvFlushReq\<close> take the next channel number. The chunk is offered to
  the pump only in transmit mode; in idle mode \<open>EvOutgoing\<close> cannot be taken and leaves
  the state as it is.
\<close>

datatype event =
    EvReadReq bytes
  | EvWriteReq bytes
  | EvFlushReq
  | EvIncoming bytes "error option"
  | EvOutgoing
  | EvWriteError error
  | EvClosed

fun send_closed :: "brspRequest list \<Rightarrow> BRSP \<Rightarrow> outcome" where
  "send_closed [] b = Done b"
| "send_closed (r # rs) b =
     and_then (send (ReadReply (req_r r) \<lparr>res_n = 0, res_err = Some ErrClosed\<rparr> (req_p r)) b)
       (send_closed rs)"

text \<open>The deferred function of \<open>loop\<close>.\<close>

definition loop_deferred :: "BRSP \<Rightarrow> outcome" where
  "loop_deferred b =
     and_then (send_errors (flushReqs b) (Some ErrClosed) b) (\<lambda>b. send_closed (readReqs b) b)"

fun select_case :: "event \<Rightarrow> BRSP \<Rightarrow> outcome" where
  "select_case (EvReadReq p) b =
     handleReadReq \<lparr>req_p = p, req_r = nextChan b\<rparr> (b\<lparr>nextChan := nextChan b + 1\<rparr>)"
| "select_case (EvWriteReq p) b = handleWriteReq p b"
| "select_case EvFlushReq b = handleFlushReq (nextChan b) (b\<lparr>nextChan := nextChan b + 1\<rparr>)"
| "select_case (EvIncoming d e) b = handleIncomingData (onTx d e) b"
| "select_case EvOutgoing b =
     (if txMode b then and_then (writer (outData b) b) handleOutgoingData else Done b)"
| "select_case (EvWriteError e) b = Done (handleWriteError e b)"
| "select_case EvClosed b = loop_deferred b"

text \<open>
  The Engine goroutine: running the loop, returned from it, blocked forever in a send, or
  ended by a panic. Only a running loop takes events.
\<close>

datatype engine = Running BRSP | Returned BRSP | Stuck BRSP chan | Crashed

fun loop_step :: "engine \<Rightarrow> event \<Rightarrow> engine" where
  "loop_step (Running b) ev =
     (case select_case ev b of
        Done b' \<Rightarrow> (if ev = EvClosed then Returned b' else Running b')
      | Blocked b' c \<Rightarrow> Stuck b' c
      | Panicked \<Rightarrow> Crashed)"
| "loop_step g ev = g"

definition loop :: "event list \<Rightarrow> engine \<Rightarrow> engine" where
  "loop evs g = foldl loop_step g evs"

fun brsp_of :: "engine \<Rightarrow> BRSP option" where
  "brsp_of (Running b) = Some b"
| "brsp_of (Returned b) = Some b"
| "brsp_of (Stuck b c) = Some b"
| "brsp_of Crashed = None"

subsection \<open>The public \<open>Write\<close>\<close>

text \<open>
  \<^verbatim>\<open>b.writeReq <- p\<close> completes when the loop takes the request; then \<open>Write\<close>
  returns \<open>(len(p), nil)\<close>. When no loop is left to receive, the send never completes
  and \<open>Write\<close> does not return: the result \<open>None\<close>.
\<close>

definition Write :: "bytes \<Rightarrow> engine \<Rightarrow> (int \<times> error option) option \<times> engine" where
  "Write p g =
     (case g of
        Running b \<Rightarrow> (Some (int (length p), None), loop_step g (EvWriteReq p))
      | _ \<Rightarrow> (None, g))"

section \<open>Opening the bridge (\<open>discover\<close>, \<open>init\<close>, \<open>OpenBRSP\<close>)\<close>

text \<open>
  Modelled from the spec: the types \<open>UUID\<close>, \<open>Service\<close>, \<open>Characteristic\<close> and the
  interface \<open>Peripheral\<close> are declared in files of the package that are not among the
  sources at hand. A UUID is the text it is parsed from, and \<^verbatim>\<open>u.Equal(v)\<close> is
  equality; a service and a characteristic are their UUID and a handle that tells two
  objects with one UUID apart.
\<close>

type_synonym UUID = string

record Service =
  svc_uuid :: UUID
  svc_handle :: nat

record Characteristic =
  chr_uuid :: UUID
  chr_handle :: nat

text \<open>
  The package variables \<open>brspService\<close>, \<open>brspMode\<close>, \<open>brspRx\<close>, \<open>brspTx\<close>; the
  suffix keeps them apart from the fields of \<open>BRSP\<close> with the same names.
\<close>

definition brspService_UUID :: UUID where
  "brspService_UUID = ''DA2B84F1-6279-48DE-BDC0-AFBEA0226079''"

definition brspMode_UUID :: UUID where
  "brspMode_UUID = ''A87988B9-694C-479C-900E-95DFA6C00A24''"

definition brspRx_UUID :: UUID where
  "brspRx_UUID = ''BF03260C-7205-4C25-AF43-93B1C299D159''"

definition brspTx_UUID :: UUID where
  "brspTx_UUID = ''18CDA784-4BD3-4370-85BB-BFED91EC86AF''"

text \<open>
  Modelled from the spec: the collaborator, as the five methods \<open>BRSP\<close> calls. Each takes
  the collaborator's own state \<open>'p\<close> and returns it changed, so a call may depend on the
  calls before it. \<open>SetIndicateValue\<close> gets \<open>True\<close> where the source passes the callback
  and \<open>False\<close> where it passes \<^verbatim>\<open>nil\<close>.
\<close>

record 'p Peripheral =
  DiscoverServices :: "UUID list \<Rightarrow> 'p \<Rightarrow> (Service list \<times> error option) \<times> 'p"
  DiscoverCharacteristics ::
    "UUID list \<Rightarrow> Service \<Rightarrow> 'p \<Rightarrow> (Characteristic list \<times> error option) \<times> 'p"
  DiscoverDescriptors :: "Characteristic option \<Rightarrow> 'p \<Rightarrow> error option \<times> 'p"
  SetIndicateValue :: "Characteristic option \<Rightarrow> bool \<Rightarrow> 'p \<Rightarrow> error option \<times> 'p"
  WriteCharacteristic :: "Characteristic option \<Rightarrow> bytes \<Rightarrow> bool \<Rightarrow> 'p \<Rightarrow> error option \<times> 'p"

text \<open>The four pointer fields of \<open>BRSP\<close> that \<open>discover\<close> fills; \<^verbatim>\<open>nil\<close> is \<open>None\<close>.\<close>

record handles =
  brspService :: "Service option"
  brspMode :: "Characteristic option"
  brspRx :: "Characteristic option"
  brspTx :: "Characteristic option"

text \<open>The first loop of \<open>discover\<close> stops at the first service with the UUID.\<close>

fun find_service :: "Service list \<Rightarrow> handles \<Rightarrow> handles" where
  "find_service [] h = h"
| "find_service (s # ss) h =
     (if svc_uuid s = brspService_UUID then h\<lparr>brspService := Some s\<rparr> else find_service ss h)"

text \<open>The second loop runs over all characteristics.\<close>

fun assign_chars :: "Characteristic list \<Rightarrow> handles \<Rightarrow> handles" where
  "assign_chars [] h = h"
| "assign_chars (c # cs) h =
     assign_chars cs
       (if chr_uuid c = brspMode_UUID then h\<lparr>brspMode := Some c\<rparr>
        else if chr_uuid c = brspRx_UUID then h\<lparr>brspRx := Some c\<rparr>
        else if chr_uuid c = brspTx_UUID then h\<lparr>brspTx := Some c\<rparr>
        else h)"

definition discover :: "'p Peripheral \<Rightarrow> handles \<Rightarrow> 'p \<Rightarrow> error option \<times> handles \<times> 'p" where
  "discover P h x =
     (let ((svcs, err), x) = DiscoverServices P [brspService_UUID] x in
      if err \<noteq> None then (err, h, x)
      else
        let h = find_service svcs h in
        (case brspService h of
           None \<Rightarrow> (Some ErrNotBRSP, h, x)
         | Some s \<Rightarrow>
             (let ((chars, err), x) =
                    DiscoverCharacteristics P [brspMode_UUID, brspRx_UUID, brspTx_UUID] s x in
              if err \<noteq> None then (err, h, x)
              else
                let h = assign_chars chars h in
                if brspMode h = None \<or> brspRx h = None \<or> brspTx h = None
                then (Some ErrNotBRSP, h, x)
                else
                  let (err, x) = DiscoverDescriptors P (brspTx h) x in
                  if err \<noteq> None then (err, h, x) else (None, h, x))))"

definition init :: "'p Peripheral \<Rightarrow> handles \<Rightarrow> 'p \<Rightarrow> error option \<times> handles \<times> 'p" where
  "init P h x =
     (let (err, h, x) = discover P h x in
      if err \<noteq> None then (err, h, x)
      else
        let (err, x) = SetIndicateValue P (brspTx h) False x in
        if err \<noteq> None then (err, h, x)
        else
          let (err, x) = SetIndicateValue P (brspTx h) True x in
          if err \<noteq> None then (err, h, x)
          else
            let (err, x) = WriteCharacteristic P (brspMode h) [1] True x in
            if err \<noteq> None then (err, h, x) else (None, h, x))"

text \<open>
  \<open>OpenBRSP\<close> returns the bridge or \<^verbatim>\<open>nil\<close>, the error, and, for the model, the
  goroutines it started and the collaborator's state.
\<close>

datatype task = LoopTask | WriterTask

definition noHandles :: handles where
  "noHandles = \<lparr>brspService = None, brspMode = None, brspRx = None, brspTx = None\<rparr>"

definition OpenBRSP ::
    "'p Peripheral \<Rightarrow> 'p \<Rightarrow> (handles \<times> engine) option \<times> error option \<times> task list \<times> 'p" where
  "OpenBRSP P x =
     (let (err, h, x) = init P noHandles x in
      if err \<noteq> None then (None, err, [], x)
      else (Some (h, Running initBRSP), None, [LoopTask, WriterTask], x))"

text \<open>A collaborator without state that reports what it is given and never fails.\<close>

definition fixedPeripheral :: "Service list \<Rightarrow> Characteristic list \<Rightarrow> unit Peripheral" where
  "fixedPeripheral svcs chars =
     \<lparr>DiscoverServices = (\<lambda>us x. ((svcs, None), x)),
      DiscoverCharacteristics = (\<lambda>us s x. ((chars, None), x)),
      DiscoverDescriptors = (\<lambda>c x. (None, x)),
      SetIndicateValue = (\<lambda>c f x. (None, x)),
      WriteCharacteristic = (\<lambda>c d w x. (None, x))\<rparr>"

section \<open>Abstraction and invariants, for the proofs\<close>

definition contents :: "brspQueue \<Rightarrow> bytes" where
  "contents q =
     (if head q \<ge> tail q then take (nat (head q - tail q)) (drop (nat (tail q)) (data q))
      else drop (nat (tail q)) (data q) @ take (nat (head q)) (data q))"

definition q_inv :: "brspQueue \<Rightarrow> bool" where
  "q_inv q \<longleftrightarrow>
     0 \<le> tail q \<and> 0 \<le> head q \<and> head q \<le> int (length (data q)) \<and>
     (tail q \<le> head q \<or> tail q < int (length (data q))) \<and>
     (head q = tail q \<longrightarrow> head q = 0) \<and>
     (head q = int (length (data q)) \<longrightarrow> tail q = 0 \<longrightarrow> head q = 0)"

text \<open>
  For the proofs, \<open>write_q\<close> is cut in two: \<open>grow\<close> is its first statement (the
  reallocation), \<open>put\<close> the rest (the copy in one or two pieces).
\<close>

definition grow :: "bytes \<Rightarrow> brspQueue \<Rightarrow> brspQueue option" where
  "grow p q = (let space = int (length (data q)) - queued q in
       if int (length p) \<ge> space then do {
          let need = int (length p) - space + 1;
          let need = (if need < 256 then 256 else need);
          buf \<leftarrow> make_bytes (int (length (data q)) + need);
          (n, buf', _) \<leftarrow> read buf q;
          Some \<lparr>data = buf', head = n, tail = 0\<rparr>
        } else Some q)"

definition put :: "bytes \<Rightarrow> brspQueue \<Rightarrow> brspQueue option" where
  "put p q1 = do {
     let n = int (length (data q1)) - head q1;
     (p2, q2) \<leftarrow>
       (if n < int (length p) then do {
          d \<leftarrow> copy_at (data q1) (head q1) p;
          p' \<leftarrow> slice_from p n;
          Some (p', q1\<lparr>data := d, head := 0\<rparr>)
        } else Some (p, q1));
     d \<leftarrow> copy_at (data q2) (head q2) p2;
     Some (q2\<lparr>data := d, head := head q2 + int (length p2)\<rparr>)
   }"

text \<open>
  The invariant of the Engine: both queues are well formed, the chunk buffer has its 20
  bytes and a length between 0 and 20, the outbound queue is empty in idle mode; every
  channel in use was made before, the channels of the pending reads are pairwise
  different, unanswered and not among the flush channels, and the flush channels are
  pairwise different.
\<close>

definition chunk_ok :: "brspOutgoing \<Rightarrow> bool" where
  "chunk_ok d \<longleftrightarrow> length (out_data d) = 20 \<and> 0 \<le> out_n d \<and> out_n d \<le> 20"

definition data_ok :: "BRSP \<Rightarrow> bool" where
  "data_ok b \<longleftrightarrow>
     q_inv (inQueue b) \<and> q_inv (outQueue b) \<and> chunk_ok (outData b) \<and>
     (\<not> txMode b \<longrightarrow> contents (outQueue b) = [])"

definition chans_ok :: "BRSP \<Rightarrow> bool" where
  "chans_ok b \<longleftrightarrow>
     answered b \<subseteq> {..<nextChan b} \<and>
     set (flushReqs b) \<subseteq> {..<nextChan b} \<and>
     req_r ` set (readReqs b) \<subseteq> {..<nextChan b} \<and>
     req_r ` set (readReqs b) \<inter> answered b = {} \<and>
     req_r ` set (readReqs b) \<inter> set (flushReqs b) = {} \<and>
     distinct (map req_r (readReqs b)) \<and> distinct (flushReqs b)"

definition brsp_ok :: "BRSP \<Rightarrow> bool" where
  "brsp_ok b \<longleftrightarrow> data_ok b \<and> chans_ok b"

text \<open>The state in which a handler ended, when it did not panic.\<close>

fun outcome_state :: "outcome \<Rightarrow> BRSP option" where
  "outcome_state (Done b) = Some b"
| "outcome_state (Blocked b c) = Some b"
| "outcome_state Panicked = None"

subsection \<open>What an observer of the Engine sees\<close>

text \<open>
  The replies delivered so far, the payloads transmitted so far, the list of pending flush
  channels, and the channel on which a stuck Engine waits.
\<close>

definition replies :: "engine \<Rightarrow> reply list" where
  "replies g = (case brsp_of g of Some b \<Rightarrow> sent b | None \<Rightarrow> [])"

definition transmissions :: "engine \<Rightarrow> bytes list" where
  "transmissions g = (case brsp_of g of Some b \<Rightarrow> wire b | None \<Rightarrow> [])"

definition pending_flushes :: "engine \<Rightarrow> chan list" where
  "pending_flushes g = (case brsp_of g of Some b \<Rightarrow> flushReqs b | None \<Rightarrow> [])"

fun blocked_on :: "engine \<Rightarrow> chan option" where
  "blocked_on (Stuck b c) = Some c"
| "blocked_on g = None"

subsection \<open>Runs during which the Engine keeps transmitting\<close>





section \<open>The ring queue returns what was written\<close>

lemma nat_int_sub [simp]: "nat (int a - int b) = a - b"
  by simp

lemma nat_int_plus [simp]: "nat (int a + int b) = a + b"
  by simp

lemma int_plus_eq_int [simp]: "int a + int b = int c \<longleftrightarrow> a + b = c"
  by linarith

lemma queued_contents: "q_inv q \<Longrightarrow> queued q = int (length (contents q))"
  by (auto simp: q_inv_def queued_def contents_def)

lemma read_drain_wrapped:
  assumes ht: "head q = int h" "tail q = int t" "h < t" "t < length (data q)"
   and n1: "length (data q) - t \<le> length p" 
  shows "read p q = Some (int (length (data q) - t) + int (min (length p - (length (data q) - t)) h),
               drop t (data q) @ take  (min (length p - (length (data q) - t)) h) (data q) @ drop ((length (data q) - t) +  (min (length p - (length (data q) - t)) h) ) p,
               if  (min (length p - (length (data q) - t)) h)  = h then q\<lparr>tail := 0, head := 0\<rparr> else q\<lparr>tail := int  (min (length p - (length (data q) - t)) h) \<rparr>)"
proof -
  have b: "int t + int (length (data q) - t) = int (length (data q))" using ht(4) by simp
  show ?thesis using ht(3,4) n1
    apply (simp add: read_def ht(1,2) b slice_from_def slice_to_def slice_def copy_def Let_def min_absorb2)
    apply (rule arg_cong[of _ _ "\<lambda>k. drop k p"])
    apply arith
    done
qed

lemma read_spec_wrapped:
  fixes p q
  assumes "q_inv q" "\<not> tail q \<le> head q"
  defines "n \<equiv> min (length p) (length (contents q))"
  shows "\<exists>q'. read p q = Some (int n, take n (contents q) @ drop n p, q') \<and> q_inv q' \<and>
            contents q' = drop n (contents q) \<and> data q' = data q"
proof -
  define h t L where "h = nat (head q)" and "t = nat (tail q)" and "L = length (data q)"
  have ht: "head q = int h" "tail q = int t" "h < t" "t < L"
    using assms(1,2) unfolding q_inv_def h_def t_def L_def by auto
  have c: "contents q = drop t (data q) @ take h (data q)"
    using ht by (simp add: contents_def)
  have lc: "length (contents q) = L - t + h"
    unfolding c using ht by (simp add: L_def)
  show ?thesis
  proof (cases "length p < L - t")
    case True
    then have n: "n = length p" unfolding n_def lc by simp
    have ne: "int t + int (length p) \<noteq> int L" using True by linarith
    have r: "read p q = Some (int (length p), take (length p) (drop t (data q)), q\<lparr>tail := int t + int (length p)\<rparr>)"
      using True ht(3,4) ne
      by (simp add: read_def slice_from_def slice_def copy_def ht(1,2) Let_def L_def[symmetric] min_absorb1)
    have e: "nat (int t + int (length p)) = t + length p" by simp
    show ?thesis unfolding r n c using True ht(3,4)
      by (simp add: q_inv_def contents_def ht(1,2) L_def[symmetric] e add.commute[of "length p" t])
  next
    case False
    define n1 where "n1 = L - t"
    define m where "m = min (length p - n1) h"
    have n1: "n1 \<le> length p" "t + n1 = L" "0 < n1" "length (drop t (data q)) = n1"
      using False ht(4) by (auto simp: n1_def L_def)
    have n: "n = n1 + m" unfolding n_def lc m_def n1_def using False by auto
    have mh: "m \<le> h" by (simp add: m_def)
    have r: "read p q = Some (int n1 + int m,
               drop t (data q) @ take m (data q) @ drop (n1 + m) p,
               if m = h then q\<lparr>tail := 0, head := 0\<rparr> else q\<lparr>tail := int m\<rparr>)"
      unfolding m_def n1_def L_def
      by (rule read_drain_wrapped[OF ht(1,2,3) ht(4)[unfolded L_def] n1(1)[unfolded n1_def L_def]])
    have tk: "take (n1 + m) (drop t (data q) @ take h (data q)) = drop t (data q) @ take m (data q)"
      using n1(4) mh by (simp add: min_absorb1)
    have dr: "drop (n1 + m) (drop t (data q) @ take h (data q)) = take (h - m) (drop m (data q))"
      using n1(4) by (simp add: drop_take)
    have hL: "h < L" using ht by simp
    show ?thesis
    proof (cases "m = h")
      case True
      show ?thesis unfolding r n c tk dr using True
        by (simp add: q_inv_def contents_def)
    next
      case F: False
      then have "m < h" using mh by simp
      then show ?thesis unfolding r n c tk dr using F hL
        by (simp add: q_inv_def contents_def ht(1) L_def[symmetric] nat_diff_distrib')
    qed
  qed
qed

lemma read_spec_flat:
  fixes p q
  assumes "q_inv q" "tail q \<le> head q"
  defines "n \<equiv> min (length p) (length (contents q))"
  shows "\<exists>q'. read p q = Some (int n, take n (contents q) @ drop n p, q') \<and> q_inv q' \<and>
            contents q' = drop n (contents q) \<and> data q' = data q"
proof -
  define h t L where "h = nat (head q)" and "t = nat (tail q)" and "L = length (data q)"
  have ht: "head q = int h" "tail q = int t" "t \<le> h" "h \<le> L"
    using assms(1,2) unfolding q_inv_def h_def t_def L_def by auto
  have full: "h = L \<Longrightarrow> t = 0 \<Longrightarrow> h = 0"
    using assms(1) unfolding q_inv_def ht(1,2) L_def by simp
  have d: "nat (int h - int t) = h - t" by simp
  have c: "contents q = take (h - t) (drop t (data q))"
    using ht(3) by (simp add: contents_def ht(1,2) d)
  have lc: "length (contents q) = h - t"
    unfolding c using ht by (simp add: L_def)
  have nle: "n \<le> h - t" unfolding n_def lc by simp
  have r: "read p q = Some (int n, take n (take (h - t) (drop t (data q))) @ drop n p,
             if t + n = h then q\<lparr>tail := 0, head := 0\<rparr> else q\<lparr>tail := int (t + n)\<rparr>)"
    using ht(3,4) lc
    by (simp add: read_def slice_def copy_def ht(1,2) d Let_def L_def[symmetric] n_def c)
  show ?thesis
  proof (cases "t + n = h")
    case True
    then have "n = h - t" by simp
    then show ?thesis unfolding r c using True by (simp add: q_inv_def contents_def)
  next
    case False
    then have lt: "t + n < h" using nle ht(3) by linarith
    have e: "nat (int h - (int t + int n)) = h - (t + n)" by (simp add: nat_diff_distrib')
    have e2: "nat (int t + int n) = t + n" by simp
    have z: "int t + int n = 0 \<longleftrightarrow> t = 0 \<and> n = 0" by linarith
    show ?thesis unfolding r c using False lt ht(4) full
      by (auto simp add: z q_inv_def contents_def ht(1) L_def[symmetric] e e2 drop_take add.commute[of n t])
  qed
qed

lemma read_spec:
  assumes "q_inv q"
  shows "\<exists>q'. read p q = Some (int (min (length p) (length (contents q))),
                  take (min (length p) (length (contents q))) (contents q) @
                  drop (min (length p) (length (contents q))) p, q') \<and>
            q_inv q' \<and> contents q' = drop (min (length p) (length (contents q))) (contents q) \<and>
            data q' = data q"
  using read_spec_flat[OF assms] read_spec_wrapped[OF assms] by blast

lemma write_q_grow_put:
  "write_q p q = (case grow p q of None \<Rightarrow> None | Some q1 \<Rightarrow> put p q1)"
  by (simp add: write_q_def grow_def put_def Let_def split: Option.bind_split)

lemma put_nowrap:
  assumes "head q = int h" "h + length p \<le> length (data q)"
  shows "put p q = Some (q\<lparr>data := take h (data q) @ p @ drop (h + length p) (data q),
                           head := int (h + length p)\<rparr>)"
  using assms(2)
  by (simp add: put_def copy_at_def slice_from_def slice_def copy_def assms(1) Let_def min_absorb2 add.commute[of h])

lemma put_wrap:
  assumes "head q = int h" "h \<le> length (data q)" "length (data q) - h < length p"
    "length p - (length (data q) - h) \<le> h"
  shows "put p q = Some (q\<lparr>data := drop (length (data q) - h) p @ 
                 drop (length p - (length (data q) - h)) (take h (data q)) @ take (length (data q) - h) p,
                           head := int (length p - (length (data q) - h))\<rparr>)"
  using assms(2-)
  apply (simp add: put_def copy_at_def slice_from_def slice_def copy_def assms(1) Let_def min_absorb2 min_absorb1 nat_diff_distrib')
  done

lemma put_spec:
  assumes "q_inv q" "length p + length (contents q) < length (data q)"
  shows "\<exists>q'. put p q = Some q' \<and> q_inv q' \<and> contents q' = contents q @ p \<and>
              length (data q') = length (data q)"
proof -
  define h t L where "h = nat (head q)" and "t = nat (tail q)" and "L = length (data q)"
  have ht: "head q = int h" "tail q = int t" "h \<le> L" "t \<le> h \<or> t < L"
    using assms(1) unfolding q_inv_def h_def t_def L_def by auto
  have em: "t = h \<longrightarrow> h = 0"
    using assms(1) unfolding q_inv_def ht(1,2) by auto
  show ?thesis
  proof (cases "t \<le> h")
    case True
    have c: "contents q = take (h - t) (drop t (data q))"
      using True by (simp add: contents_def ht(1,2))
    have lc: "length (contents q) = h - t"
      unfolding c using ht(3) by (simp add: L_def)
    show ?thesis
    proof (cases "h + length p \<le> L")
      case fit: True
      show ?thesis
        unfolding put_nowrap[OF ht(1) fit[unfolded L_def]] c
        using True fit ht(3) assms(2)[unfolded lc] em
        by (auto simp: q_inv_def contents_def ht(2) L_def[symmetric] drop_take)
    next
      case False
      define n where "n = L - h"
      have w: "L - h < length p" "length p - (L - h) \<le> h" "length p - (L - h) < t"
        using False assms(2)[unfolded lc] True ht(3) unfolding L_def[symmetric] by auto
      show ?thesis
        unfolding put_wrap[OF ht(1) ht(3)[unfolded L_def] w(1,2)[unfolded L_def]] c
        using True w ht(3) assms(2)[unfolded lc] em
        by (auto simp: q_inv_def contents_def ht(2) L_def[symmetric] drop_take)
    qed
  next
    case False
    then have lt: "h < t" "t < L" using ht(4) by auto
    have c: "contents q = drop t (data q) @ take h (data q)"
      using lt by (simp add: contents_def ht(1,2))
    have lc: "length (contents q) = L - t + h"
      unfolding c using lt by (simp add: L_def)
    have fit: "h + length p \<le> L" "h + length p < t"
      using assms(2)[unfolded lc] lt unfolding L_def[symmetric] by auto
    show ?thesis
      unfolding put_nowrap[OF ht(1) fit(1)[unfolded L_def]] c
      using lt fit
      by (auto simp: q_inv_def contents_def ht(2) L_def[symmetric] drop_take)
  qed
qed

lemma length_contents_le: "q_inv q \<Longrightarrow> length (contents q) \<le> length (data q)"
  by (auto simp: q_inv_def contents_def)

lemma grow_spec:
  assumes "q_inv q"
  shows "\<exists>q1. grow p q = Some q1 \<and> q_inv q1 \<and> contents q1 = contents q \<and>
              length p + length (contents q1) < length (data q1)"
proof (cases "int (length p) \<ge> int (length (data q)) - queued q")
  case False
  then show ?thesis using assms
    by (simp add: grow_def queued_contents)
next
  case True
  define c L where "c = length (contents q)" and "L = length (data q)"
  define need0 where "need0 = int (length p) - (int L - int c) + 1"
  define need where "need = nat (if need0 < 256 then 256 else need0)"
  have cL: "c \<le> L" unfolding c_def L_def by (rule length_contents_le[OF assms])
  have need: "256 \<le> need" "length p + c < L + need"
    unfolding need_def need0_def using cL by auto
  define buf :: bytes where "buf = replicate (L + need) 0"
  have mk: "make_bytes (int L + (if need0 < 256 then 256 else need0)) = Some buf"
    unfolding make_bytes_def buf_def need_def need0_def using cL 
    by (auto simp: nat_add_distrib)
  have mn: "min (length buf) (length (contents q)) = c"
    unfolding buf_def c_def[symmetric] using cL by simp
  obtain q' where rd: "read buf q = Some (int c, contents q @ drop c buf, q')"
    using read_spec[OF assms, of buf] unfolding mn by (auto simp: c_def)
  have g: "grow p q = Some \<lparr>data = contents q @ drop c buf, head = int c, tail = 0\<rparr>"
    using True
    by (simp add: grow_def queued_contents[OF assms] Let_def L_def[symmetric] c_def[symmetric]
          need0_def[symmetric] mk rd)
  define cs where "cs = contents q"
  have lcs: "length cs = c" by (simp add: cs_def c_def)
  have "q_inv \<lparr>data = cs @ drop c buf, head = int c, tail = 0\<rparr>"
    using need cL lcs by (auto simp: q_inv_def buf_def)
  moreover have "contents \<lparr>data = cs @ drop c buf, head = int c, tail = 0\<rparr> = cs"
    using lcs by (simp add: contents_def)
  moreover have "length (data \<lparr>data = cs @ drop c buf, head = int c, tail = 0\<rparr>) = L + need"
    using cL lcs by (simp add: buf_def)
  ultimately show ?thesis unfolding g cs_def[symmetric] using need(2) lcs
    by simp
qed

lemma write_spec:
  assumes "q_inv q"
  shows "\<exists>q'. write_q p q = Some q' \<and> q_inv q' \<and> contents q' = contents q @ p"
proof -
  obtain q1 where g: "grow p q = Some q1" "q_inv q1" "contents q1 = contents q"
      "length p + length (contents q1) < length (data q1)"
    using grow_spec[OF assms] by blast
  obtain q' where p: "put p q1 = Some q'" "q_inv q'" "contents q' = contents q1 @ p"
    using put_spec[OF g(2,4)] by blast
  show ?thesis using g p by (simp add: write_q_grow_put)
qed

lemma q_inv_zero: "q_inv zeroQueue"
  by (simp add: q_inv_def zeroQueue_def)

lemma contents_zero: "contents zeroQueue = []"
  by (simp add: contents_def zeroQueue_def)

lemma q_exec_spec:
  "q_inv q \<Longrightarrow> \<exists>out q'. q_exec ops q = Some (out, q') \<and> q_inv q' \<and>
      contents q @ written ops = out @ contents q'"
proof (induction ops arbitrary: q)
  case Nil
  then show ?case by simp
next
  case (Cons op ops)
  show ?case
  proof (cases op)
    case (QWrite p)
    obtain q1 where w: "write_q p q = Some q1" "q_inv q1" "contents q1 = contents q @ p"
      using write_spec[OF Cons.prems] by blast
    obtain out q' where e: "q_exec ops q1 = Some (out, q')" "q_inv q'"
        "contents q1 @ written ops = out @ contents q'"
      using Cons.IH[OF w(2)] by blast
    show ?thesis using w e by (simp add: QWrite)
  next
    case (QRead p)
    define n where "n = min (length p) (length (contents q))"
    obtain q1 where r: "read p q = Some (int n, take n (contents q) @ drop n p, q1)"
        "q_inv q1" "contents q1 = drop n (contents q)"
      using read_spec[OF Cons.prems, of p] unfolding n_def by blast
    obtain out q' where e: "q_exec ops q1 = Some (out, q')" "q_inv q'"
        "contents q1 @ written ops = out @ contents q'"
      using Cons.IH[OF r(2)] by blast
    have tk: "take n (take n (contents q) @ drop n p) = take n (contents q)"
      by (simp add: n_def)
    have ex: "q_exec (QRead p # ops) q = Some (take n (contents q) @ out, q')"
      using tk by (simp add: r(1) e(1))
    have "contents q @ written ops = take n (contents q) @ (contents q1 @ written ops)"
      unfolding r(3) by simp
    then have "contents q @ written (QRead p # ops) = (take n (contents q) @ out) @ contents q'"
      unfolding e(3) by simp
    then show ?thesis unfolding QRead using ex e(2) by blast
  qed
qed

lemma q_inv_cursor:
  assumes "q_inv q"
  shows "queued q = (head q - tail q) mod int (length (data q))"
    and "queued q = 0 \<longleftrightarrow> head q = tail q"
    and "data q = [] \<or> queued q < int (length (data q))"
proof -
  show "queued q = (head q - tail q) mod int (length (data q))"
  proof (cases "tail q \<le> head q")
    case True
    then show ?thesis using assms
      by (cases "data q = []") (auto simp: q_inv_def queued_def)
  next
    case False
    then have "- int (length (data q)) < head q - tail q" "head q - tail q < 0"
      using assms by (auto simp: q_inv_def)
    then have "(head q - tail q) mod int (length (data q)) = head q - tail q + int (length (data q))"
      by (smt (verit) mod_add_self2 mod_pos_pos_trivial)
    then show ?thesis using False by (simp add: queued_def)
  qed
  show "queued q = 0 \<longleftrightarrow> head q = tail q"
    using assms by (auto simp: q_inv_def queued_def)
  show "data q = [] \<or> queued q < int (length (data q))"
    using assms by (auto simp: q_inv_def queued_def)
qed

text \<open>
  Claim C1. For every sequence of \<open>write\<close> and \<open>read\<close> calls on a queue that starts in
  the zero state, no call panics, the bytes the reads returned so far are a prefix of the
  bytes written so far (what is missing is exactly what the queue still holds, in order),
  and the two are equal once \<open>queued()\<close> is 0. Wrapping and growth are covered: the
  sequence is arbitrary.
\<close>

theorem ring_queue_round_trip:
  "\<exists>out q. q_exec ops zeroQueue = Some (out, q) \<and>
      prefix out (written ops) \<and> out @ contents q = written ops \<and>
      (queued q = 0 \<longrightarrow> out = written ops)"
proof -
  obtain out q where e: "q_exec ops zeroQueue = Some (out, q)" "q_inv q"
      "contents zeroQueue @ written ops = out @ contents q"
    using q_exec_spec[OF q_inv_zero] by blast
  have w: "written ops = out @ contents q" using e(3) by (simp add: contents_zero)
  have "queued q = 0 \<longrightarrow> contents q = []"
    using queued_contents[OF e(2)] by simp
  then show ?thesis using e(1) w by auto
qed

text \<open>
  The example of the specification: a first write allocates 256 bytes, 300 bytes are
  written (the queue grows to 512) and read back unchanged, which empties the queue.
\<close>

theorem ring_queue_round_trip_witness:
  "\<exists>q. q_exec [QWrite [], QWrite (replicate 300 7), QRead (replicate 300 0)] zeroQueue
          = Some (replicate 300 7, q) \<and> queued q = 0 \<and> length (data q) = 512"
proof -
  let ?ops = "[QWrite [], QWrite (replicate 300 7), QRead (replicate 300 0)]"
  obtain out q where e: "q_exec ?ops zeroQueue = Some (out, q)"
      "queued q = 0 \<longrightarrow> out = written ?ops"
    using ring_queue_round_trip[of ?ops] by blast
  have r: "map_option (\<lambda>(out, q). (queued q, length (data q))) (q_exec ?ops zeroQueue) = Some (0, 512)"
    by code_simp
  show ?thesis using e r by auto
qed

lemma q_inv_empty_cursors:
  assumes "q_inv q" "contents q = []"
  shows "head q = 0 \<and> tail q = 0 \<and> queued q = 0"
proof -
  have "queued q = 0" using queued_contents[OF assms(1)] assms(2) by simp
  then show ?thesis using assms(1) q_inv_cursor(2)[OF assms(1)] by (auto simp: q_inv_def)
qed

lemma read_all:
  assumes "q_inv q" "length (contents q) \<le> length p"
  shows "\<exists>q'. read p q = Some (queued q, contents q @ drop (length (contents q)) p, q') \<and>
           q_inv q' \<and> head q' = 0 \<and> tail q' = 0 \<and> queued q' = 0 \<and> data q' = data q"
proof -
  have m: "min (length p) (length (contents q)) = length (contents q)"
    using assms(2) by simp
  obtain q' where r: "read p q = Some (int (length (contents q)),
        contents q @ drop (length (contents q)) p, q')" "q_inv q'" "contents q' = []"
        "data q' = data q"
    using read_spec[OF assms(1), of p] unfolding m by auto
  show ?thesis using r q_inv_empty_cursors[OF r(2,3)] queued_contents[OF assms(1)] by simp
qed

lemma drain_then_write:
  assumes "q_inv q'" "queued q' = 0"
  shows "\<exists>q''. write_q w q' = Some q'' \<and> queued q'' = int (length w) \<and>
           (\<forall>buf. length w \<le> length buf \<longrightarrow>
              (\<exists>q3. read buf q'' = Some (int (length w), w @ drop (length w) buf, q3)))"
proof -
  have c: "contents q' = []" using queued_contents[OF assms(1)] assms(2) by simp
  obtain q'' where w: "write_q w q' = Some q''" "q_inv q''" "contents q'' = w"
    using write_spec[OF assms(1), of w] c by auto
  have "\<exists>q3. read buf q'' = Some (int (length w), w @ drop (length w) buf, q3)"
    if "length w \<le> length buf" for buf
    using read_all[OF w(2), of buf] that queued_contents[OF w(2)] unfolding w(3) by auto
  then show ?thesis using w(1) queued_contents[OF w(2)] w(3) by auto
qed

text \<open>
  Claim C9. After every sequence of \<open>write\<close> and \<open>read\<close> calls from the zero state:
  \<open>queued()\<close> is \<open>(head - tail) mod capacity\<close> (in the zero state the capacity is 0 and
  both sides are 0, as \<open>x mod 0 = x\<close> in HOL); the queue is empty exactly when
  \<open>head = tail\<close>; an allocated buffer is never completely full. A read into a buffer
  that holds everything queued returns all of it and leaves both cursors at 0 and
  \<open>queued()\<close> at 0; any write after that is read back byte for byte.
\<close>

theorem ring_queue_cursor_invariant:
  "\<exists>out q. q_exec ops zeroQueue = Some (out, q) \<and>
     queued q = (head q - tail q) mod int (length (data q)) \<and>
     (queued q = 0 \<longleftrightarrow> head q = tail q) \<and>
     (data q = [] \<or> queued q < int (length (data q))) \<and>
     (\<forall>p. queued q \<le> int (length p) \<longrightarrow>
        (\<exists>p' q'. read p q = Some (queued q, p', q') \<and>
           head q' = 0 \<and> tail q' = 0 \<and> queued q' = 0 \<and>
           (\<forall>w. \<exists>q''. write_q w q' = Some q'' \<and> queued q'' = int (length w) \<and>
              (\<forall>buf. length w \<le> length buf \<longrightarrow>
                 (\<exists>q3. read buf q'' = Some (int (length w), w @ drop (length w) buf, q3))))))"
proof -
  obtain out q where e: "q_exec ops zeroQueue = Some (out, q)" "q_inv q"
    using q_exec_spec[OF q_inv_zero] by blast
  have "\<exists>p' q'. read p q = Some (queued q, p', q') \<and>
           head q' = 0 \<and> tail q' = 0 \<and> queued q' = 0 \<and>
           (\<forall>w. \<exists>q''. write_q w q' = Some q'' \<and> queued q'' = int (length w) \<and>
              (\<forall>buf. length w \<le> length buf \<longrightarrow>
                 (\<exists>q3. read buf q'' = Some (int (length w), w @ drop (length w) buf, q3))))"
    if "queued q \<le> int (length p)" for p
  proof -
    have "length (contents q) \<le> length p"
      using that queued_contents[OF e(2)] by simp
    then obtain q' where r: "read p q = Some (queued q, contents q @ drop (length (contents q)) p, q')"
        "q_inv q'" "head q' = 0" "tail q' = 0" "queued q' = 0"
      using read_all[OF e(2)] by blast
    show ?thesis using r drain_then_write[OF r(2,5)] by blast
  qed
  then show ?thesis using e(1) q_inv_cursor[OF e(2)] by blast
qed

text \<open>
  At a concrete run with a wrap: 200 bytes written, 199 read, 57 written (the last one
  goes to offset 0), then the queue is drained, written to and read again.
\<close>

theorem ring_queue_cursor_invariant_witness:
  "\<exists>q q' q'' q3. q_exec [QWrite (replicate 200 1), QRead (replicate 199 0), QWrite (replicate 57 2)] zeroQueue
                  = Some (replicate 199 1, q) \<and> queued q = 58 \<and> head q = 1 \<and> tail q = 199 \<and>
     read (replicate 58 0) q = Some (58, 1 # replicate 57 2, q') \<and> head q' = 0 \<and> tail q' = 0 \<and>
     write_q [3, 4] q' = Some q'' \<and> read [0, 0] q'' = Some (2, [3, 4], q3)"
proof -
  let ?ops = "[QWrite (replicate 200 1), QRead (replicate 199 0), QWrite (replicate 57 2)]"
  obtain out q where e: "q_exec ?ops zeroQueue = Some (out, q)"
    and d: "\<forall>p. queued q \<le> int (length p) \<longrightarrow>
        (\<exists>p' q'. read p q = Some (queued q, p', q') \<and>
           head q' = 0 \<and> tail q' = 0 \<and> queued q' = 0 \<and>
           (\<forall>w. \<exists>q''. write_q w q' = Some q'' \<and> queued q'' = int (length w) \<and>
              (\<forall>buf. length w \<le> length buf \<longrightarrow>
                 (\<exists>q3. read buf q'' = Some (int (length w), w @ drop (length w) buf, q3)))))"
    using ring_queue_cursor_invariant[of ?ops] by blast
  have v: "map_option (\<lambda>(out, q). (out, queued q, head q, tail q, map_option (\<lambda>(n, p', q'). p') (read (replicate 58 0) q))) (q_exec ?ops zeroQueue)
       = Some (replicate 199 1, 58, 1, 199, Some (1 # replicate 57 2))"
    by code_simp
  have q: "out = replicate 199 1" "queued q = 58" "head q = 1" "tail q = 199"
    using v e by auto
  have h: "queued q \<le> int (length (replicate 58 (0::byte)))" using q by simp
  obtain p' q' where r: "read (replicate 58 0) q = Some (queued q, p', q')" "head q' = 0" "tail q' = 0"
     and w: "\<forall>w. \<exists>q''. write_q w q' = Some q'' \<and> queued q'' = int (length w) \<and>
              (\<forall>buf. length w \<le> length buf \<longrightarrow>
                 (\<exists>q3. read buf q'' = Some (int (length w), w @ drop (length w) buf, q3)))"
    using d[rule_format, OF h] by blast
  have p': "p' = 1 # replicate 57 2" using v e r(1) by auto
  obtain q'' where w2: "write_q [3, 4] q' = Some q''" 
     and rb: "\<forall>buf. length [3, 4::byte] \<le> length buf \<longrightarrow>
                 (\<exists>q3. read buf q'' = Some (int (length [3, 4::byte]), [3, 4] @ drop (length [3, 4::byte]) buf, q3))"
    using w by blast
  obtain q3 where "read [0, 0] q'' = Some (2, [3, 4], q3)"
    using rb[rule_format, of "[0, 0]"] by auto
  then show ?thesis using e q r p' w2 by auto
qed

section \<open>The Engine: what each handler does, and the invariant\<close>

lemma send_fresh:
  "reply_chan m \<notin> answered b \<Longrightarrow> send m b = Done (b\<lparr>sent := sent b @ [m]\<rparr>)"
  by (simp add: send_def)

lemma send_stale:
  "reply_chan m \<in> answered b \<Longrightarrow> send m b = Blocked b (reply_chan m)"
  by (simp add: send_def)

lemma answered_sent [simp]:
  "answered (b\<lparr>sent := sent b @ ms\<rparr>) = answered b \<union> reply_chan ` set ms"
  by (simp add: answered_def)

lemma send_errors_fresh:
  "distinct cs \<Longrightarrow> set cs \<inter> answered b = {} \<Longrightarrow>
   send_errors cs e b = Done (b\<lparr>sent := sent b @ map (\<lambda>c. FlushReply c e) cs\<rparr>)"
proof (induction cs arbitrary: b)
  case Nil
  then show ?case by simp
next
  case (Cons c cs)
  have s: "send (FlushReply c e) b = Done (b\<lparr>sent := sent b @ [FlushReply c e]\<rparr>)"
    using Cons.prems(2) by (simp add: send_fresh)
  have "set cs \<inter> answered (b\<lparr>sent := sent b @ [FlushReply c e]\<rparr>) = {}"
    using Cons.prems by auto
  from Cons.IH[OF _ this] Cons.prems(1) show ?case
    by (simp add: s)
qed

lemma send_closed_fresh:
  "distinct (map req_r rs) \<Longrightarrow> req_r ` set rs \<inter> answered b = {} \<Longrightarrow>
   send_closed rs b = Done (b\<lparr>sent := sent b @
      map (\<lambda>r. ReadReply (req_r r) \<lparr>res_n = 0, res_err = Some ErrClosed\<rparr> (req_p r)) rs\<rparr>)"
proof (induction rs arbitrary: b)
  case Nil
  then show ?case by simp
next
  case (Cons r rs)
  let ?m = "ReadReply (req_r r) \<lparr>res_n = 0, res_err = Some ErrClosed\<rparr> (req_p r)"
  have s: "send ?m b = Done (b\<lparr>sent := sent b @ [?m]\<rparr>)"
    using Cons.prems(2) by (simp add: send_fresh)
  have "req_r ` set rs \<inter> answered (b\<lparr>sent := sent b @ [?m]\<rparr>) = {}"
    using Cons.prems by auto
  from Cons.IH[OF _ this] Cons.prems(1) show ?case
    by (simp add: s)
qed

lemma send_errors_frame:
  "\<exists>ms. outcome_state (send_errors cs e b) = Some (b\<lparr>sent := sent b @ ms\<rparr>)"
proof (induction cs arbitrary: b)
  case Nil
  have "b = b\<lparr>sent := sent b @ []\<rparr>" by simp
  then show ?case by (metis outcome_state.simps(1) send_errors.simps(1))
next
  case (Cons c cs)
  show ?case
  proof (cases "c \<in> answered b")
    case True
    have "b = b\<lparr>sent := sent b @ []\<rparr>" by simp
    then show ?thesis using True by (metis and_then.simps(2) outcome_state.simps(2) send_errors.simps(2) send_stale reply_chan.simps(1))
  next
    case False
    obtain ms where "outcome_state (send_errors cs e (b\<lparr>sent := sent b @ [FlushReply c e]\<rparr>))
       = Some (b\<lparr>sent := sent b @ [FlushReply c e], sent := sent (b\<lparr>sent := sent b @ [FlushReply c e]\<rparr>) @ ms\<rparr>)"
      using Cons.IH by blast
    then show ?thesis using False by (auto simp: send_fresh)
  qed
qed

lemma onTx_eq:
  "onTx d e = \<lparr>in_data = take 20 d @ replicate (20 - length d) 0,
               in_n = int (min 20 (length d)), in_err = e\<rparr>"
  by (simp add: onTx_def copy_def min_def Let_def)

lemma onTx_sel [simp]:
  "in_n (onTx d e) = int (min 20 (length d))" "in_err (onTx d e) = e"
  by (simp_all add: onTx_eq)

lemma onTx_slice:
  "slice_to (in_data (onTx d e)) (int (min 20 (length d))) = Some (take 20 d)"
  by (simp add: onTx_eq slice_to_def slice_def min_def)

lemma onTx_slice_rest:
  "n \<le> min 20 (length d) \<Longrightarrow>
   slice (in_data (onTx d e)) (int n) (int (min 20 (length d))) = Some (drop n (take 20 d))"
  by (auto simp add: onTx_eq slice_def min_def)

lemma handleWriteError_eq: "handleWriteError e b = b\<lparr>writeError := Some e\<rparr>"
  by (simp add: handleWriteError_def)



lemma handleReadReq_empty:
  "queued (inQueue b) = 0 \<Longrightarrow> handleReadReq r b = Done (b\<lparr>readReqs := readReqs b @ [r]\<rparr>)"
  by (simp add: handleReadReq_def)

lemma handleReadReq_queued:
  assumes "q_inv (inQueue b)" "queued (inQueue b) > 0" "req_r r \<notin> answered b"
  defines "n \<equiv> min (length (req_p r)) (length (contents (inQueue b)))"
  shows "\<exists>q. handleReadReq r b =
      Done (b\<lparr>inQueue := q,
              sent := sent b @ [ReadReply (req_r r) \<lparr>res_n = int n, res_err = readError b\<rparr>
                         (take n (contents (inQueue b)) @ drop n (req_p r))],
              readError := None\<rparr>) \<and>
      q_inv q \<and> contents q = drop n (contents (inQueue b))"
proof -
  obtain q where r: "read (req_p r) (inQueue b) =
        Some (int n, take n (contents (inQueue b)) @ drop n (req_p r), q)"
      "q_inv q" "contents q = drop n (contents (inQueue b))"
    using read_spec[OF assms(1), of "req_p r"] unfolding n_def by blast
  have "req_r r \<notin> answered (b\<lparr>inQueue := q\<rparr>)" using assms(3) by (simp add: answered_def)
  then show ?thesis using r assms(2)
    by (auto simp: handleReadReq_def send_fresh)
qed

lemma handleIncomingData_idle:
  assumes "q_inv (inQueue b)" "readReqs b = []"
  shows "\<exists>q. handleIncomingData (onTx d e) b =
      Done (b\<lparr>inQueue := q, readError := (if e \<noteq> None then e else readError b)\<rparr>) \<and>
      q_inv q \<and> contents q = contents (inQueue b) @ take 20 d"
proof -
  obtain q where w: "write_q (take 20 d) (inQueue b) = Some q" "q_inv q"
      "contents q = contents (inQueue b) @ take 20 d"
    using write_spec[OF assms(1)] by blast
  show ?thesis using w assms(2)
    by (auto simp: handleIncomingData_def onTx_slice)
qed

lemma handleIncomingData_pending:
  fixes d :: bytes
  assumes "q_inv (inQueue b)" "readReqs b = rr # rest" "req_r rr \<notin> answered b"
  defines "n \<equiv> min (length (req_p rr)) (min 20 (length d))"
  shows "\<exists>q. handleIncomingData (onTx d e) b =
      Done (b\<lparr>readReqs := rest, inQueue := q,
              sent := sent b @ [ReadReply (req_r rr) \<lparr>res_n = int n, res_err = e\<rparr>
                         (take n d @ drop n (req_p rr))]\<rparr>) \<and>
      q_inv q \<and> contents q = contents (inQueue b) @ drop n (take 20 d)"
proof -
  have cp: "copy (req_p rr) (take 20 d) = (n, take n d @ drop n (req_p rr))"
    by (auto simp: copy_def n_def min_def Let_def)
  have nle: "n \<le> min 20 (length d)" unfolding n_def by (rule min.cobounded2)
  show ?thesis
  proof (cases "int (min 20 (length d)) > int n")
    case True
    obtain q where w: "write_q (drop n (take 20 d)) (inQueue b) = Some q" "q_inv q"
        "contents q = contents (inQueue b) @ drop n (take 20 d)"
      using write_spec[OF assms(1)] by blast
    have a: "req_r rr \<notin> answered (b\<lparr>readReqs := rest, inQueue := q\<rparr>)"
      using assms(3) by (simp add: answered_def)
    show ?thesis using True w a
      by (auto simp: handleIncomingData_def assms(2) onTx_slice cp onTx_slice_rest[OF nle] send_fresh Let_def)
  next
    case False
    then have e: "drop n (take 20 d) = []" using nle by (auto simp: min_def split: if_splits)
    have a: "req_r rr \<notin> answered (b\<lparr>readReqs := rest\<rparr>)"
      using assms(3) by (simp add: answered_def)
    have "b\<lparr>readReqs := rest, sent := sent b @ [m]\<rparr> = b\<lparr>readReqs := rest, inQueue := inQueue b, sent := sent b @ [m]\<rparr>" for m
      by simp
    then show ?thesis using False a assms(1) unfolding e
      by (auto simp: handleIncomingData_def assms(2) onTx_slice cp send_fresh Let_def intro!: exI[of _ "inQueue b"])
  qed
qed

lemma handleWriteReq_idle:
  assumes "q_inv (outQueue b)" "\<not> txMode b" "length (out_data (outData b)) = 20"
  shows "\<exists>q. handleWriteReq p b =
      Done (b\<lparr>outData := \<lparr>out_data = take 20 p @ drop (length p) (out_data (outData b)),
                           out_n = int (min 20 (length p))\<rparr>,
              txMode := True, outQueue := q\<rparr>) \<and>
      q_inv q \<and> contents q = contents (outQueue b) @ drop 20 p"
proof -
  obtain q where w: "write_q (drop 20 p) (outQueue b) = Some q" "q_inv q"
      "contents q = contents (outQueue b) @ drop 20 p"
    using write_spec[OF assms(1)] by blast
  show ?thesis
  proof (cases "length p > 20")
    case True
    then have s: "slice_from p 20 = Some (drop 20 p)"
      by (simp add: slice_from_def slice_def)
    show ?thesis using True w assms(2,3) s
      by (auto simp add: handleWriteReq_def copy_def Let_def min_def)
  next
    case False
    then have s: "slice_from p (int (length p)) = Some (drop 20 p)"
      by (simp add: slice_from_def slice_def)
    show ?thesis using False w assms(2,3) s
      by (auto simp add: handleWriteReq_def copy_def Let_def min_def)
  qed
qed

lemma handleWriteReq_active:
  assumes "q_inv (outQueue b)" "txMode b"
  shows "\<exists>q. handleWriteReq p b = Done (b\<lparr>outQueue := q\<rparr>) \<and>
      q_inv q \<and> contents q = contents (outQueue b) @ p"
proof -
  obtain q where w: "write_q p (outQueue b) = Some q" "q_inv q"
      "contents q = contents (outQueue b) @ p"
    using write_spec[OF assms(1)] by blast
  show ?thesis using w assms(2) by (auto simp add: handleWriteReq_def)
qed

lemma writer_ok:
  assumes "chunk_ok d"
  shows "writer d b =
     Done (if out_n d > 0 then b\<lparr>wire := wire b @ [take (nat (out_n d)) (out_data d)]\<rparr> else b)"
  using assms by (simp add: writer_def chunk_ok_def slice_to_def slice_def)

lemma handleOutgoingData_refill:
  assumes "q_inv (outQueue b)" "length (out_data (outData b)) = 20" "contents (outQueue b) \<noteq> []"
  defines "n \<equiv> min 20 (length (contents (outQueue b)))"
  shows "\<exists>q. handleOutgoingData b =
      Done (b\<lparr>outQueue := q,
              outData := (outData b)\<lparr>out_data :=
                              take n (contents (outQueue b)) @ drop n (out_data (outData b)),
                           out_n := int n\<rparr>\<rparr>) \<and>
      q_inv q \<and> contents q = drop n (contents (outQueue b))"
proof -
  obtain q where r: "read (out_data (outData b)) (outQueue b) =
        Some (int n, take n (contents (outQueue b)) @ drop n (out_data (outData b)), q)"
      "q_inv q" "contents q = drop n (contents (outQueue b))"
    using read_spec[OF assms(1), of "out_data (outData b)"] unfolding n_def assms(2) by blast
  have "n > 0" using assms(3) by (simp add: n_def)
  then show ?thesis using r by (auto simp add: handleOutgoingData_def)
qed

lemma handleOutgoingData_last:
  assumes "q_inv (outQueue b)" "length (out_data (outData b)) = 20" "contents (outQueue b) = []"
    "out_n (outData b) > 0"
  shows "\<exists>q. handleOutgoingData b =
      Done (b\<lparr>outQueue := q, outData := (outData b)\<lparr>out_n := 0\<rparr>\<rparr>) \<and>
      q_inv q \<and> contents q = []"
proof -
  obtain q where r: "read (out_data (outData b)) (outQueue b) =
        Some (0, out_data (outData b), q)" "q_inv q" "contents q = []"
    using read_spec[OF assms(1), of "out_data (outData b)"] unfolding assms(3) by auto
  show ?thesis using r assms(4) by (auto simp add: handleOutgoingData_def)
qed

lemma handleOutgoingData_idle:
  assumes "q_inv (outQueue b)" "length (out_data (outData b)) = 20" "contents (outQueue b) = []"
    "out_n (outData b) \<le> 0"
  shows "\<exists>q. handleOutgoingData b =
      and_then (send_errors (flushReqs b) (writeError b) (b\<lparr>outQueue := q, txMode := False\<rparr>))
        (\<lambda>b. Done (b\<lparr>writeError := None\<rparr>)) \<and>
      q_inv q \<and> contents q = []"
proof -
  obtain q where r: "read (out_data (outData b)) (outQueue b) =
        Some (0, out_data (outData b), q)" "q_inv q" "contents q = []"
    using read_spec[OF assms(1), of "out_data (outData b)"] unfolding assms(3) by auto
  show ?thesis using r assms(4) by (auto simp add: handleOutgoingData_def)
qed

lemma brsp_ok_init: "brsp_ok initBRSP"
  by (simp add: brsp_ok_def data_ok_def chans_ok_def initBRSP_def q_inv_zero contents_zero
        chunk_ok_def answered_def)

lemma chans_ok_frame:
  assumes "chans_ok b" "sent b' = sent b" "flushReqs b' = flushReqs b"
    "readReqs b' = readReqs b" "nextChan b' = nextChan b"
  shows "chans_ok b'"
  using assms unfolding chans_ok_def answered_def by simp

lemma chans_ok_new_reply:
  assumes "chans_ok b" "sent b' = sent b @ [m]" "reply_chan m = nextChan b"
    "flushReqs b' = flushReqs b" "readReqs b' = readReqs b" "nextChan b' = nextChan b + 1"
  shows "chans_ok b'"
  using assms unfolding chans_ok_def answered_def by (auto simp: less_Suc_eq)

lemma chans_ok_new_read:
  assumes "chans_ok b" "sent b' = sent b" "flushReqs b' = flushReqs b"
    "readReqs b' = readReqs b @ [r]" "req_r r = nextChan b" "nextChan b' = nextChan b + 1"
  shows "chans_ok b'"
  using assms unfolding chans_ok_def answered_def by (auto simp: less_Suc_eq)

lemma chans_ok_new_flush:
  assumes "chans_ok b" "sent b' = sent b" "flushReqs b' = flushReqs b @ [nextChan b]"
    "readReqs b' = readReqs b" "nextChan b' = nextChan b + 1"
  shows "chans_ok b'"
  using assms unfolding chans_ok_def answered_def by (auto simp: less_Suc_eq)

lemma chans_ok_read_served:
  assumes "chans_ok b" "readReqs b = rr # rest" "sent b' = sent b @ [m]"
    "reply_chan m = req_r rr" "flushReqs b' = flushReqs b" "readReqs b' = rest"
    "nextChan b' = nextChan b"
  shows "chans_ok b'"
  using assms unfolding chans_ok_def answered_def by auto

lemma chans_ok_flushes_served:
  assumes "chans_ok b" "sent b' = sent b @ map (\<lambda>c. FlushReply c e) (flushReqs b)"
    "flushReqs b' = flushReqs b" "readReqs b' = readReqs b" "nextChan b' = nextChan b"
  shows "chans_ok b'"
  using assms unfolding chans_ok_def answered_def by (auto simp: image_image)

lemma send_errors_Done:
  "send_errors cs e b = Done b' \<Longrightarrow> b' = b\<lparr>sent := sent b @ map (\<lambda>c. FlushReply c e) cs\<rparr>"
proof (induction cs arbitrary: b)
  case Nil
  then show ?case by simp
next
  case (Cons c cs)
  show ?case
  proof (cases "c \<in> answered b")
    case True
    then show ?thesis using Cons.prems by (simp add: send_def)
  next
    case False
    then have "send_errors cs e (b\<lparr>sent := sent b @ [FlushReply c e]\<rparr>) = Done b'"
      using Cons.prems by (simp add: send_def)
    from Cons.IH[OF this] show ?thesis by simp
  qed
qed

lemma ok_ReadReq:
  assumes "brsp_ok b" "select_case (EvReadReq p) b = Done b'"
  shows "brsp_ok b'"
proof -
  let ?b = "b\<lparr>nextChan := nextChan b + 1\<rparr>"
  let ?r = "\<lparr>req_p = p, req_r = nextChan b\<rparr>"
  have d: "data_ok b" and c: "chans_ok b" using assms(1) by (simp_all add: brsp_ok_def)
  have fresh: "nextChan b \<notin> answered ?b"
    using c by (auto simp: chans_ok_def answered_def)
  have h: "handleReadReq ?r ?b = Done b'" using assms(2) by simp
  show ?thesis
  proof (cases "queued (inQueue b) > 0")
    case True
    obtain q m where r: "handleReadReq ?r ?b =
        Done (?b\<lparr>inQueue := q, sent := sent ?b @ [m], readError := None\<rparr>)"
        "q_inv q" "reply_chan m = nextChan b"
      using handleReadReq_queued[of ?b ?r] d True fresh
      by (fastforce simp: data_ok_def)
    have b': "b' = ?b\<lparr>inQueue := q, sent := sent ?b @ [m], readError := None\<rparr>"
      using h r(1) by simp
    have "data_ok b'" using d r(2) by (simp add: b' data_ok_def)
    moreover have "chans_ok b'"
      by (rule chans_ok_new_reply[OF c, of b' m]) (simp_all add: b' r(3))
    ultimately show ?thesis by (simp add: brsp_ok_def)
  next
    case False
    then have "queued (inQueue ?b) = 0"
      using d queued_contents[of "inQueue b"] by (simp add: data_ok_def)
    from handleReadReq_empty[OF this, of ?r] h
    have b': "b' = ?b\<lparr>readReqs := readReqs ?b @ [?r]\<rparr>" by simp
    have "data_ok b'" using d by (simp add: b' data_ok_def)
    moreover have "chans_ok b'"
      by (rule chans_ok_new_read[OF c, of b' ?r]) (simp_all add: b')
    ultimately show ?thesis by (simp add: brsp_ok_def)
  qed
qed

lemma ok_WriteReq:
  assumes "brsp_ok b" "select_case (EvWriteReq p) b = Done b'"
  shows "brsp_ok b'"
proof -
  have d: "data_ok b" and c: "chans_ok b" using assms(1) by (simp_all add: brsp_ok_def)
  have qi: "q_inv (outQueue b)" "length (out_data (outData b)) = 20"
    using d by (simp_all add: data_ok_def chunk_ok_def)
  show ?thesis
  proof (cases "txMode b")
    case True
    obtain q where "handleWriteReq p b = Done (b\<lparr>outQueue := q\<rparr>)" "q_inv q"
      using handleWriteReq_active[OF qi(1) True, of p] by blast
    then have b': "b' = b\<lparr>outQueue := q\<rparr>" "q_inv q" using assms(2) by auto
    have "data_ok b'" using d b'(2) True by (simp add: b'(1) data_ok_def)
    moreover have "chans_ok b'" by (rule chans_ok_frame[OF c]) (simp_all add: b'(1))
    ultimately show ?thesis by (simp add: brsp_ok_def)
  next
    case False
    obtain q where "handleWriteReq p b =
        Done (b\<lparr>outData := \<lparr>out_data = take 20 p @ drop (length p) (out_data (outData b)),
                           out_n = int (min 20 (length p))\<rparr>,
              txMode := True, outQueue := q\<rparr>)" "q_inv q"
      using handleWriteReq_idle[OF qi(1) False qi(2), of p] by blast
    then have b': "b' = b\<lparr>outData := \<lparr>out_data = take 20 p @ drop (length p) (out_data (outData b)),
                           out_n = int (min 20 (length p))\<rparr>,
              txMode := True, outQueue := q\<rparr>" "q_inv q" using assms(2) by auto
    have "data_ok b'" using d b'(2) qi(2) by (auto simp add: b'(1) data_ok_def chunk_ok_def)
    moreover have "chans_ok b'" by (rule chans_ok_frame[OF c]) (simp_all add: b'(1))
    ultimately show ?thesis by (simp add: brsp_ok_def)
  qed
qed

lemma ok_FlushReq:
  assumes "brsp_ok b" "select_case EvFlushReq b = Done b'"
  shows "brsp_ok b'"
proof -
  let ?b = "b\<lparr>nextChan := nextChan b + 1\<rparr>"
  have d: "data_ok b" and c: "chans_ok b" using assms(1) by (simp_all add: brsp_ok_def)
  have fresh: "nextChan b \<notin> answered ?b"
    using c by (auto simp: chans_ok_def answered_def)
  show ?thesis
  proof (cases "txMode b")
    case True
    then have b': "b' = ?b\<lparr>flushReqs := flushReqs b @ [nextChan b]\<rparr>"
      using assms(2) by (simp add: handleFlushReq_def)
    have "data_ok b'" using d by (simp add: b' data_ok_def)
    moreover have "chans_ok b'" by (rule chans_ok_new_flush[OF c]) (simp_all add: b')
    ultimately show ?thesis by (simp add: brsp_ok_def)
  next
    case False
    then have b': "b' = ?b\<lparr>sent := sent b @ [FlushReply (nextChan b) (writeError b)],
         writeError := None\<rparr>"
      using assms(2) fresh by (simp add: handleFlushReq_def send_fresh)
    have "data_ok b'" using d by (simp add: b' data_ok_def)
    moreover have "chans_ok b'"
      by (rule chans_ok_new_reply[OF c, of b' "FlushReply (nextChan b) (writeError b)"])
         (simp_all add: b')
    ultimately show ?thesis by (simp add: brsp_ok_def)
  qed
qed

lemma ok_Incoming:
  assumes "brsp_ok b" "select_case (EvIncoming dd e) b = Done b'"
  shows "brsp_ok b'"
proof -
  have d: "data_ok b" and c: "chans_ok b" using assms(1) by (simp_all add: brsp_ok_def)
  have qi: "q_inv (inQueue b)" using d by (simp add: data_ok_def)
  show ?thesis
  proof (cases "readReqs b")
    case Nil
    obtain q where "handleIncomingData (onTx dd e) b =
        Done (b\<lparr>inQueue := q, readError := (if e \<noteq> None then e else readError b)\<rparr>)" "q_inv q"
      using handleIncomingData_idle[OF qi Nil, of dd e] by blast
    then have b': "b' = b\<lparr>inQueue := q, readError := (if e \<noteq> None then e else readError b)\<rparr>"
        "q_inv q" using assms(2) by auto
    have "data_ok b'" using d b'(2) by (simp add: b'(1) data_ok_def)
    moreover have "chans_ok b'" by (rule chans_ok_frame[OF c]) (simp_all add: b'(1))
    ultimately show ?thesis by (simp add: brsp_ok_def)
  next
    case (Cons rr rest)
    have un: "req_r rr \<notin> answered b" using c Cons by (auto simp: chans_ok_def)
    obtain q m where "handleIncomingData (onTx dd e) b =
        Done (b\<lparr>readReqs := rest, inQueue := q, sent := sent b @ [m]\<rparr>)" "q_inv q"
        "reply_chan m = req_r rr"
      using handleIncomingData_pending[OF qi Cons un, of dd e] by fastforce
    then have b': "b' = b\<lparr>readReqs := rest, inQueue := q, sent := sent b @ [m]\<rparr>" "q_inv q"
        "reply_chan m = req_r rr" using assms(2) by auto
    have "data_ok b'" using d b'(2) by (simp add: b'(1) data_ok_def)
    moreover have "chans_ok b'"
      by (rule chans_ok_read_served[OF c Cons, of b' m]) (simp_all add: b')
    ultimately show ?thesis by (simp add: brsp_ok_def)
  qed
qed

lemma ok_Outgoing:
  assumes "brsp_ok b" "select_case EvOutgoing b = Done b'"
  shows "brsp_ok b'"
proof (cases "txMode b")
  case False
  then show ?thesis using assms by simp
next
  case True
  have d: "data_ok b" and c: "chans_ok b" using assms(1) by (simp_all add: brsp_ok_def)
  have ck: "chunk_ok (outData b)" using d by (simp add: data_ok_def)
  define b1 where "b1 = (if out_n (outData b) > 0
      then b\<lparr>wire := wire b @ [take (nat (out_n (outData b))) (out_data (outData b))]\<rparr> else b)"
  have w: "writer (outData b) b = Done b1"
    unfolding b1_def by (rule writer_ok[OF ck])
  have h: "handleOutgoingData b1 = Done b'"
    using assms(2) True w by simp
  have d1: "data_ok b1" using d by (simp add: b1_def data_ok_def)
  have c1: "chans_ok b1" by (rule chans_ok_frame[OF c]) (simp_all add: b1_def)
  have qi: "q_inv (outQueue b1)" "length (out_data (outData b1)) = 20" "0 \<le> out_n (outData b1)"
    using d1 by (simp_all add: data_ok_def chunk_ok_def)
  show ?thesis
  proof (cases "contents (outQueue b1) = []")
    case ne: False
    define n where "n = min 20 (length (contents (outQueue b1)))"
    obtain q where "handleOutgoingData b1 =
      Done (b1\<lparr>outQueue := q,
              outData := (outData b1)\<lparr>out_data :=
                              take n (contents (outQueue b1)) @ drop n (out_data (outData b1)),
                           out_n := int n\<rparr>\<rparr>)" "q_inv q"
      using handleOutgoingData_refill[OF qi(1,2) ne] unfolding n_def by blast
    then have b': "b' = b1\<lparr>outQueue := q,
              outData := (outData b1)\<lparr>out_data :=
                              take n (contents (outQueue b1)) @ drop n (out_data (outData b1)),
                           out_n := int n\<rparr>\<rparr>" "q_inv q" using h by auto
    have "txMode b1" using True by (simp add: b1_def)
    then have "data_ok b'" using d1 b'(2) qi(2)
      by (auto simp add: b'(1) data_ok_def chunk_ok_def n_def)
    moreover have "chans_ok b'" by (rule chans_ok_frame[OF c1]) (simp_all add: b'(1))
    ultimately show ?thesis by (simp add: brsp_ok_def)
  next
    case em: True
    show ?thesis
    proof (cases "out_n (outData b1) > 0")
      case pos: True
      obtain q where "handleOutgoingData b1 =
          Done (b1\<lparr>outQueue := q, outData := (outData b1)\<lparr>out_n := 0\<rparr>\<rparr>)" "q_inv q"
          "contents q = []"
        using handleOutgoingData_last[OF qi(1,2) em pos] by blast
      then have b': "b' = b1\<lparr>outQueue := q, outData := (outData b1)\<lparr>out_n := 0\<rparr>\<rparr>" "q_inv q"
          "contents q = []"
        using h by auto
      have "data_ok b'" using d1 b'(2,3) qi(2)
        by (auto simp add: b'(1) data_ok_def chunk_ok_def)
      moreover have "chans_ok b'" by (rule chans_ok_frame[OF c1]) (simp_all add: b'(1))
      ultimately show ?thesis by (simp add: brsp_ok_def)
    next
      case npos: False
      then have le: "out_n (outData b1) \<le> 0" by simp
      obtain q where hq: "handleOutgoingData b1 =
          and_then (send_errors (flushReqs b1) (writeError b1) (b1\<lparr>outQueue := q, txMode := False\<rparr>))
            (\<lambda>b. Done (b\<lparr>writeError := None\<rparr>))" "q_inv q" "contents q = []"
        using handleOutgoingData_idle[OF qi(1,2) em le] by blast
      obtain b2 where s: "send_errors (flushReqs b1) (writeError b1) (b1\<lparr>outQueue := q, txMode := False\<rparr>) = Done b2"
          "b' = b2\<lparr>writeError := None\<rparr>"
        using h hq(1)
        by (cases "send_errors (flushReqs b1) (writeError b1) (b1\<lparr>outQueue := q, txMode := False\<rparr>)") auto
      have b': "b' = b1\<lparr>outQueue := q, txMode := False,
           sent := sent b1 @ map (\<lambda>c. FlushReply c (writeError b1)) (flushReqs b1), writeError := None\<rparr>"
        using send_errors_Done[OF s(1)] s(2) by simp
      have "data_ok b'" using d1 hq(2,3) by (simp add: b' data_ok_def)
      moreover have "chans_ok b'"
        by (rule chans_ok_flushes_served[OF c1, of b' "writeError b1"]) (simp_all add: b')
      ultimately show ?thesis by (simp add: brsp_ok_def)
    qed
  qed
qed

lemma ok_step:
  assumes "brsp_ok b" "select_case ev b = Done b'" "ev \<noteq> EvClosed"
  shows "brsp_ok b'"
proof (cases ev)
  case (EvWriteError e)
  then have b': "b' = b\<lparr>writeError := Some e\<rparr>" using assms(2) by (simp add: handleWriteError_def)
  have "data_ok b'" using assms(1) by (simp add: b' brsp_ok_def data_ok_def)
  moreover have "chans_ok b'"
    by (rule chans_ok_frame[of b]) (use assms(1) in \<open>simp_all add: b' brsp_ok_def\<close>)
  ultimately show ?thesis by (simp add: brsp_ok_def)
next
  case (EvReadReq p)
  then show ?thesis using assms(1,2) ok_ReadReq by blast
next
  case (EvWriteReq p)
  then show ?thesis using assms(1,2) ok_WriteReq by blast
next
  case EvFlushReq
  then show ?thesis using assms(1,2) ok_FlushReq by blast
next
  case (EvIncoming d e)
  then show ?thesis using assms(1,2) ok_Incoming by blast
next
  case EvOutgoing
  then show ?thesis using assms(1,2) ok_Outgoing by blast
next
  case EvClosed
  then show ?thesis using assms(3) by simp
qed

lemma loop_Nil [simp]: "loop [] g = g"
  by (simp add: loop_def)

lemma loop_Cons [simp]: "loop (ev # evs) g = loop evs (loop_step g ev)"
  by (simp add: loop_def)

lemma loop_append: "loop (evs @ evs') g = loop evs' (loop evs g)"
  by (simp add: loop_def)

lemma loop_not_running:
  "\<forall>b. g \<noteq> Running b \<Longrightarrow> loop evs g = g"
  by (induction evs) (cases g; simp)+

lemma loop_step_Running:
  "\<exists>b. g = Running b \<and> select_case ev b = Done b' \<and> ev \<noteq> EvClosed"
  if "loop_step g ev = Running b'"
proof (cases g)
  case (Running b)
  show ?thesis
  proof (cases "select_case ev b")
    case (Done b1)
    then show ?thesis using that Running by (cases "ev = EvClosed") simp_all
  qed (use that Running in simp_all)
qed (use that in simp_all)

lemma loop_ok:
  "brsp_ok b \<Longrightarrow> loop evs (Running b) = Running b' \<Longrightarrow> brsp_ok b'"
proof (induction evs arbitrary: b' rule: rev_induct)
  case Nil
  then show ?case by simp
next
  case (snoc ev evs)
  from snoc.prems(2) have "loop_step (loop evs (Running b)) ev = Running b'"
    by (simp add: loop_append)
  then obtain b1 where "loop evs (Running b) = Running b1" "select_case ev b1 = Done b'"
      "ev \<noteq> EvClosed"
    using loop_step_Running by blast
  then show ?case using snoc.IH[OF snoc.prems(1)] ok_step by blast
qed

lemma reachable_ok: "loop evs (Running initBRSP) = Running b \<Longrightarrow> brsp_ok b"
  using loop_ok[OF brsp_ok_init] .

section \<open>Fragmentation of a write\<close>

lemma Outgoing_refill:
  assumes "data_ok b" "txMode b" "contents (outQueue b) \<noteq> []" "out_n (outData b) > 0"
  shows "\<exists>q. select_case EvOutgoing b =
      Done (b\<lparr>wire := wire b @ [take (nat (out_n (outData b))) (out_data (outData b))],
              outQueue := q,
              outData := (outData b)\<lparr>out_data :=
                   take (min 20 (length (contents (outQueue b)))) (contents (outQueue b)) @
                   drop (min 20 (length (contents (outQueue b)))) (out_data (outData b)),
                 out_n := int (min 20 (length (contents (outQueue b))))\<rparr>\<rparr>) \<and>
      q_inv q \<and> contents q = drop (min 20 (length (contents (outQueue b)))) (contents (outQueue b))"
proof -
  let ?b1 = "b\<lparr>wire := wire b @ [take (nat (out_n (outData b))) (out_data (outData b))]\<rparr>"
  have ck: "chunk_ok (outData b)" "q_inv (outQueue b)" "length (out_data (outData b)) = 20"
    using assms(1) by (simp_all add: data_ok_def chunk_ok_def)
  have w: "writer (outData b) b = Done ?b1"
    using writer_ok[OF ck(1), of b] assms(4) by simp
  obtain q where "handleOutgoingData ?b1 =
      Done (?b1\<lparr>outQueue := q,
              outData := (outData ?b1)\<lparr>out_data :=
                   take (min 20 (length (contents (outQueue ?b1)))) (contents (outQueue ?b1)) @
                   drop (min 20 (length (contents (outQueue ?b1)))) (out_data (outData ?b1)),
                 out_n := int (min 20 (length (contents (outQueue ?b1))))\<rparr>\<rparr>)"
      "q_inv q" "contents q = drop (min 20 (length (contents (outQueue ?b1)))) (contents (outQueue ?b1))"
    using handleOutgoingData_refill[of ?b1] ck(2,3) assms(3) by auto
  then show ?thesis using assms(2) w by auto
qed

lemma Outgoing_last:
  assumes "data_ok b" "txMode b" "contents (outQueue b) = []" "out_n (outData b) > 0"
  shows "\<exists>q. select_case EvOutgoing b =
      Done (b\<lparr>wire := wire b @ [take (nat (out_n (outData b))) (out_data (outData b))],
              outQueue := q, outData := (outData b)\<lparr>out_n := 0\<rparr>\<rparr>) \<and>
      q_inv q \<and> contents q = []"
proof -
  let ?b1 = "b\<lparr>wire := wire b @ [take (nat (out_n (outData b))) (out_data (outData b))]\<rparr>"
  have ck: "chunk_ok (outData b)" "q_inv (outQueue b)" "length (out_data (outData b)) = 20"
    using assms(1) by (simp_all add: data_ok_def chunk_ok_def)
  have w: "writer (outData b) b = Done ?b1"
    using writer_ok[OF ck(1), of b] assms(4) by simp
  obtain q where "handleOutgoingData ?b1 =
      Done (?b1\<lparr>outQueue := q, outData := (outData ?b1)\<lparr>out_n := 0\<rparr>\<rparr>)"
      "q_inv q" "contents q = []"
    using handleOutgoingData_last[of ?b1] ck(2,3) assms(3,4) by auto
  then show ?thesis using assms(2) w by auto
qed

lemma Outgoing_idle:
  assumes "data_ok b" "txMode b" "contents (outQueue b) = []" "out_n (outData b) = 0"
  shows "\<exists>q. select_case EvOutgoing b =
      and_then (send_errors (flushReqs b) (writeError b) (b\<lparr>outQueue := q, txMode := False\<rparr>))
        (\<lambda>b. Done (b\<lparr>writeError := None\<rparr>)) \<and>
      q_inv q \<and> contents q = []"
proof -
  have ck: "chunk_ok (outData b)" "q_inv (outQueue b)" "length (out_data (outData b)) = 20"
    using assms(1) by (simp_all add: data_ok_def chunk_ok_def)
  have w: "writer (outData b) b = Done b"
    using writer_ok[OF ck(1), of b] assms(4) by simp
  show ?thesis
    using handleOutgoingData_idle[OF ck(2,3) assms(3)] assms(2,4) w by auto
qed

lemma Outgoing_idle_fresh:
  assumes "data_ok b" "txMode b" "contents (outQueue b) = []" "out_n (outData b) = 0"
    "distinct (flushReqs b)" "set (flushReqs b) \<inter> answered b = {}"
  shows "\<exists>q. select_case EvOutgoing b =
      Done (b\<lparr>outQueue := q, txMode := False,
              sent := sent b @ map (\<lambda>c. FlushReply c (writeError b)) (flushReqs b),
              writeError := None\<rparr>) \<and>
      q_inv q \<and> contents q = []"
proof -
  obtain q where q: "select_case EvOutgoing b =
      and_then (send_errors (flushReqs b) (writeError b) (b\<lparr>outQueue := q, txMode := False\<rparr>))
        (\<lambda>b. Done (b\<lparr>writeError := None\<rparr>))" "q_inv q" "contents q = []"
    using Outgoing_idle[OF assms(1-4)] by blast
  have "set (flushReqs b) \<inter> answered (b\<lparr>outQueue := q, txMode := False\<rparr>) = {}"
    using assms(6) by (simp add: answered_def)
  from send_errors_fresh[OF assms(5) this, of "writeError b"] q show ?thesis
    by auto
qed

lemma Outgoing_idle_state:
  assumes "data_ok b" "txMode b" "contents (outQueue b) = []" "out_n (outData b) = 0"
  shows "\<exists>b'. outcome_state (select_case EvOutgoing b) = Some b' \<and>
      \<not> txMode b' \<and> wire b' = wire b"
proof -
  obtain q where q: "select_case EvOutgoing b =
      and_then (send_errors (flushReqs b) (writeError b) (b\<lparr>outQueue := q, txMode := False\<rparr>))
        (\<lambda>b. Done (b\<lparr>writeError := None\<rparr>))"
    using Outgoing_idle[OF assms] by blast
  let ?b = "b\<lparr>outQueue := q, txMode := False\<rparr>"
  obtain ms where ms: "outcome_state (send_errors (flushReqs b) (writeError b) ?b)
      = Some (?b\<lparr>sent := sent ?b @ ms\<rparr>)"
    using send_errors_frame by blast
  show ?thesis
  proof (cases "send_errors (flushReqs b) (writeError b) ?b")
    case (Done b2)
    then show ?thesis using ms q by auto
  next
    case (Blocked b2 c)
    then show ?thesis using ms q by auto
  next
    case Panicked
    then show ?thesis using ms by simp
  qed
qed

lemma loop_step_Done:
  "select_case ev b = Done b' \<Longrightarrow> ev \<noteq> EvClosed \<Longrightarrow> loop_step (Running b) ev = Running b'"
  by simp

lemma brsp_of_loop_step:
  "ev \<noteq> EvClosed \<Longrightarrow> brsp_of (loop_step (Running b) ev) = outcome_state (select_case ev b)"
  by (cases "select_case ev b") simp_all

text \<open>
  Claim C4. In every state of the invariant (every reachable state, by \<open>reachable_ok\<close>)
  in which the Engine is idle, a write of 45 bytes followed by the hand-offs to the pump,
  with no other write in between, puts exactly three payloads on the wire: bytes 0 to 19,
  bytes 20 to 39 and bytes 40 to 44 of that write, in this order. The fourth hand-off
  carries an empty chunk, transmits nothing and turns the Engine idle; the loop is then
  still running unless a flush channel that was answered before is still in the list of
  pending flushes.
\<close>

theorem fragmentation_45:
  assumes "brsp_ok b" "\<not> txMode b" "length p = 45"
  shows "\<exists>b3 b'. loop [EvWriteReq p, EvOutgoing, EvOutgoing, EvOutgoing] (Running b) = Running b3 \<and>
     wire b3 = wire b @ [take 20 p, take 20 (drop 20 p), drop 40 p] \<and>
     brsp_of (loop [EvWriteReq p, EvOutgoing, EvOutgoing, EvOutgoing, EvOutgoing] (Running b))
       = Some b' \<and>
     wire b' = wire b3 \<and> \<not> txMode b' \<and>
     (set (flushReqs b) \<inter> answered b = {} \<longrightarrow>
        loop [EvWriteReq p, EvOutgoing, EvOutgoing, EvOutgoing, EvOutgoing] (Running b) = Running b')"
proof -
  have d: "data_ok b" and c: "chans_ok b" using assms(1) by (simp_all add: brsp_ok_def)
  have qi: "q_inv (outQueue b)" "length (out_data (outData b)) = 20" "contents (outQueue b) = []"
    using d assms(2) by (simp_all add: data_ok_def chunk_ok_def)
  \<comment> \<open>the write request: the first 20 bytes go to the chunk, 25 to the queue\<close>
  obtain q0 where s0: "handleWriteReq p b =
      Done (b\<lparr>outData := \<lparr>out_data = take 20 p @ drop (length p) (out_data (outData b)),
                           out_n = int (min 20 (length p))\<rparr>,
              txMode := True, outQueue := q0\<rparr>)" "q_inv q0"
      "contents q0 = contents (outQueue b) @ drop 20 p"
    using handleWriteReq_idle[OF qi(1) assms(2) qi(2), of p] by blast
  define b0 where "b0 = b\<lparr>outData := \<lparr>out_data = take 20 p, out_n = 20\<rparr>,
              txMode := True, outQueue := q0\<rparr>"
  have e0: "select_case (EvWriteReq p) b = Done b0"
    using s0(1) assms(3) qi(2) by (simp add: b0_def)
  have p0: "data_ok b0" "txMode b0" "contents (outQueue b0) = drop 20 p"
      "out_n (outData b0) = 20" "out_data (outData b0) = take 20 p" "wire b0 = wire b"
      "flushReqs b0 = flushReqs b" "answered b0 = answered b"
    using d s0(2,3) qi(3) assms(3)
    by (simp_all add: b0_def data_ok_def chunk_ok_def answered_def)
  \<comment> \<open>first hand-off: 20 bytes go out, the chunk is refilled with the next 20\<close>
  have ne0: "contents (outQueue b0) \<noteq> []" using p0(3) assms(3) by auto
  have m0: "min 20 (length (contents (outQueue b0))) = 20" using p0(3) assms(3) by simp
  obtain q1 where s1: "select_case EvOutgoing b0 =
      Done (b0\<lparr>wire := wire b0 @ [take (nat (out_n (outData b0))) (out_data (outData b0))],
              outQueue := q1,
              outData := (outData b0)\<lparr>out_data :=
                   take 20 (contents (outQueue b0)) @ drop 20 (out_data (outData b0)),
                 out_n := int 20\<rparr>\<rparr>)" "q_inv q1"
      "contents q1 = drop 20 (contents (outQueue b0))"
    using Outgoing_refill[OF p0(1,2) ne0] p0(4) unfolding m0 by auto
  define b1 where "b1 = b0\<lparr>wire := wire b @ [take 20 p], outQueue := q1,
      outData := \<lparr>out_data = take 20 (drop 20 p), out_n = 20\<rparr>\<rparr>"
  have e1: "select_case EvOutgoing b0 = Done b1"
    using s1(1) assms(3) by (simp add: b1_def p0)
  have p1: "data_ok b1" "txMode b1" "contents (outQueue b1) = drop 40 p"
      "out_n (outData b1) = 20" "out_data (outData b1) = take 20 (drop 20 p)"
      "wire b1 = wire b @ [take 20 p]" "flushReqs b1 = flushReqs b" "answered b1 = answered b"
    using p0 s1(2,3) assms(3)
    by (simp_all add: b1_def data_ok_def chunk_ok_def answered_def)
  \<comment> \<open>second hand-off: 20 bytes go out, the chunk is refilled with the last 5\<close>
  have ne1: "contents (outQueue b1) \<noteq> []" using p1(3) assms(3) by auto
  have m1: "min 20 (length (contents (outQueue b1))) = 5" using p1(3) assms(3) by simp
  obtain q2 where s2: "select_case EvOutgoing b1 =
      Done (b1\<lparr>wire := wire b1 @ [take (nat (out_n (outData b1))) (out_data (outData b1))],
              outQueue := q2,
              outData := (outData b1)\<lparr>out_data :=
                   take 5 (contents (outQueue b1)) @ drop 5 (out_data (outData b1)),
                 out_n := int 5\<rparr>\<rparr>)" "q_inv q2"
      "contents q2 = drop 5 (contents (outQueue b1))"
    using Outgoing_refill[OF p1(1,2) ne1] p1(4) unfolding m1 by auto
  define b2 where "b2 = b1\<lparr>wire := wire b @ [take 20 p, take 20 (drop 20 p)], outQueue := q2,
      outData := \<lparr>out_data = drop 40 p @ drop 5 (take 20 (drop 20 p)), out_n = 5\<rparr>\<rparr>"
  have e2: "select_case EvOutgoing b1 = Done b2"
    using s2(1) assms(3) by (simp add: b2_def p1)
  have p2: "data_ok b2" "txMode b2" "contents (outQueue b2) = []"
      "out_n (outData b2) = 5" "take 5 (out_data (outData b2)) = drop 40 p"
      "wire b2 = wire b @ [take 20 p, take 20 (drop 20 p)]" "flushReqs b2 = flushReqs b"
      "answered b2 = answered b"
    using p1 s2(2,3) assms(3)
    by (simp_all add: b2_def data_ok_def chunk_ok_def answered_def)
  \<comment> \<open>third hand-off: the last 5 bytes go out, nothing is left to refill\<close>
  obtain q3 where s3: "select_case EvOutgoing b2 =
      Done (b2\<lparr>wire := wire b2 @ [take (nat (out_n (outData b2))) (out_data (outData b2))],
              outQueue := q3, outData := (outData b2)\<lparr>out_n := 0\<rparr>\<rparr>)" "q_inv q3"
      "contents q3 = []"
    using Outgoing_last[OF p2(1,2,3)] p2(4) by auto
  define b3 where "b3 = b2\<lparr>wire := wire b @ [take 20 p, take 20 (drop 20 p), drop 40 p],
      outQueue := q3, outData := (outData b2)\<lparr>out_n := 0\<rparr>\<rparr>"
  have e3: "select_case EvOutgoing b2 = Done b3"
    using s3(1) by (simp add: b3_def p2)
  have p3: "data_ok b3" "txMode b3" "contents (outQueue b3) = []"
      "out_n (outData b3) = 0"
      "wire b3 = wire b @ [take 20 p, take 20 (drop 20 p), drop 40 p]"
      "flushReqs b3 = flushReqs b" "answered b3 = answered b"
    using p2 s3(2,3)
    by (simp_all add: b3_def data_ok_def chunk_ok_def answered_def)
  have st: "loop_step (Running b) (EvWriteReq p) = Running b0"
      "loop_step (Running b0) EvOutgoing = Running b1"
      "loop_step (Running b1) EvOutgoing = Running b2"
      "loop_step (Running b2) EvOutgoing = Running b3"
    using e0 e1 e2 e3 by (simp_all only: loop_step_Done event.distinct not_False_eq_True)
  have l3: "loop [EvWriteReq p, EvOutgoing, EvOutgoing, EvOutgoing] (Running b) = Running b3"
    by (simp only: loop_Cons loop_Nil st)
  \<comment> \<open>fourth hand-off: an empty chunk, nothing goes out, the Engine turns idle\<close>
  obtain b' where s4: "outcome_state (select_case EvOutgoing b3) = Some b'"
      "\<not> txMode b'" "wire b' = wire b3"
    using Outgoing_idle_state[OF p3(1-4)] by blast
  have l4: "loop [EvWriteReq p, EvOutgoing, EvOutgoing, EvOutgoing, EvOutgoing] (Running b)
      = loop_step (Running b3) EvOutgoing"
    by (simp only: loop_Cons loop_Nil st)
  have r4: "brsp_of (loop [EvWriteReq p, EvOutgoing, EvOutgoing, EvOutgoing, EvOutgoing] (Running b))
      = Some b'"
  proof -
    have "brsp_of (loop_step (Running b3) EvOutgoing) = outcome_state (select_case EvOutgoing b3)"
      by (rule brsp_of_loop_step) simp
    then show ?thesis by (simp only: l4 s4(1))
  qed
  have run: "loop [EvWriteReq p, EvOutgoing, EvOutgoing, EvOutgoing, EvOutgoing] (Running b) = Running b'"
    if fresh: "set (flushReqs b) \<inter> answered b = {}"
  proof -
    have dist: "distinct (flushReqs b3)" using c p3(6) by (simp add: chans_ok_def)
    have "set (flushReqs b3) \<inter> answered b3 = {}" using fresh p3(6,7) by simp
    from Outgoing_idle_fresh[OF p3(1-4) dist this]
    obtain b4 where b4: "select_case EvOutgoing b3 = Done b4" by blast
    have "outcome_state (select_case EvOutgoing b3) = Some b4"
      by (simp only: b4 outcome_state.simps)
    then have "b4 = b'" using s4(1) by (simp only: option.inject)
    moreover have "loop_step (Running b3) EvOutgoing = Running b4"
      by (rule loop_step_Done[OF b4]) simp
    ultimately show ?thesis by (simp only: l4)
  qed
  show ?thesis using l3 p3(5) r4 s4(2,3) run by blast
qed

text \<open>From the initial state, with a payload whose three parts differ.\<close>

theorem fragmentation_45_witness:
  "\<exists>b'. loop [EvWriteReq (replicate 20 1 @ replicate 20 2 @ replicate 5 3),
               EvOutgoing, EvOutgoing, EvOutgoing, EvOutgoing] (Running initBRSP) = Running b' \<and>
     wire b' = [replicate 20 1, replicate 20 2, replicate 5 3] \<and> \<not> txMode b'"
proof -
  have h: "\<not> txMode initBRSP" "length (replicate 20 1 @ replicate 20 2 @ replicate 5 (3::byte)) = 45"
      "set (flushReqs initBRSP) \<inter> answered initBRSP = {}" "wire initBRSP = []"
    by (simp_all add: initBRSP_def)
  from fragmentation_45[OF brsp_ok_init h(1,2)] h(3,4) show ?thesis
    by auto
qed

section \<open>Runs on which claims fail, and the public \<open>Write\<close>\<close>

text \<open>
  Claim C2 (a flush request is answered at most once and never sent to again) fails on
  the code. One write, one flush and two hand-offs: the Engine turns idle and answers
  channel 0, but \<open>handleOutgoingData\<close> leaves the channel in \<open>flushReqs\<close>. At the
  next idle transition, or at shutdown, the Engine sends on channel 0 again; the
  \<open>Flush\<close> call has returned, so the Engine blocks in that send for good.
\<close>

theorem flush_channel_sent_again:
  "replies (loop [EvWriteReq [1], EvFlushReq, EvOutgoing, EvOutgoing] (Running initBRSP))
     = [FlushReply 0 None] \<and>
   pending_flushes (loop [EvWriteReq [1], EvFlushReq, EvOutgoing, EvOutgoing] (Running initBRSP))
     = [0] \<and>
   blocked_on (loop [EvWriteReq [1], EvFlushReq, EvOutgoing, EvOutgoing,
                     EvWriteReq [2], EvOutgoing, EvOutgoing] (Running initBRSP)) = Some 0 \<and>
   blocked_on (loop [EvWriteReq [1], EvFlushReq, EvOutgoing, EvOutgoing, EvClosed]
                 (Running initBRSP)) = Some 0"
  by code_simp

text \<open>
  Claim C8 (at shutdown every pending read and flush is answered with \<open>ErrClosed\<close>)
  fails on the code for the same reason: with the answered channel 0 still in
  \<open>flushReqs\<close>, the deferred function blocks in its first send, and the read pending on
  channel 1 is never answered.
\<close>

theorem close_leaves_read_pending:
  "blocked_on (loop [EvWriteReq [1], EvFlushReq, EvOutgoing, EvOutgoing, EvReadReq [0, 0], EvClosed]
                 (Running initBRSP)) = Some 0 \<and>
   replies (loop [EvWriteReq [1], EvFlushReq, EvOutgoing, EvOutgoing, EvReadReq [0, 0], EvClosed]
                 (Running initBRSP)) = [FlushReply 0 None]"
  by code_simp


text \<open>
  Claim C5 (a read that drains only bytes queued before the failing notification does not
  report the error) fails on the code: two bytes arrive without error, a third with an
  error, and a read of one byte returns the first byte together with that error.
\<close>

theorem read_error_not_positional:
  "replies (loop [EvIncoming [1, 2] None, EvIncoming [3] (Some (TransportError 7)), EvReadReq [0]]
              (Running initBRSP))
     = [ReadReply 0 \<lparr>res_n = 1, res_err = Some (TransportError 7)\<rparr> [1]]"
  by code_simp

text \<open>
  Claim C7 (\<open>Write\<close> returns \<open>(len(p), nil)\<close> in every stream state) fails after
  shutdown: the loop has returned, nothing receives the request, \<open>Write\<close> does not
  return.
\<close>

theorem Write_after_close_blocks:
  "fst (Write [1, 2, 3] (loop [EvClosed] (Running initBRSP))) = None"
  by code_simp

text \<open>
  Claim C7 as amended: while the loop is running, \<open>Write(p)\<close> returns \<open>(len(p), nil)\<close>
  whatever the state, also when a write error is captured; once the loop has returned, is
  stuck or has crashed, \<open>Write\<close> does not return.
\<close>

theorem Write_result:
  "fst (Write p (Running b)) = Some (int (length p), None) \<and>
   fst (Write p (Returned b)) = None \<and> fst (Write p (Stuck b c)) = None \<and>
   fst (Write p Crashed) = None"
  by (simp add: Write_def)

section \<open>Pending reads are served oldest first\<close>

lemma fresh_next: "chans_ok b \<Longrightarrow> nextChan b \<notin> answered b"
  by (auto simp: chans_ok_def)

lemma Incoming_pending:
  fixes d :: bytes
  assumes "brsp_ok b" "readReqs b = rr # rest"
  shows "\<exists>q. select_case (EvIncoming d e) b =
      Done (b\<lparr>readReqs := rest, inQueue := q,
              sent := sent b @ [ReadReply (req_r rr)
                 \<lparr>res_n = int (min (length (req_p rr)) (min 20 (length d))), res_err = e\<rparr>
                 (take (min (length (req_p rr)) (min 20 (length d))) d @
                  drop (min (length (req_p rr)) (min 20 (length d))) (req_p rr))]\<rparr>) \<and> q_inv q"
proof -
  have qi: "q_inv (inQueue b)" using assms(1) by (simp add: brsp_ok_def data_ok_def)
  have un: "req_r rr \<notin> answered b"
    using assms by (auto simp: brsp_ok_def chans_ok_def)
  show ?thesis using handleIncomingData_pending[OF qi assms(2) un, of d e] by auto
qed

lemma ReadReq_empty:
  assumes "queued (inQueue b) = 0"
  shows "select_case (EvReadReq p) b =
     Done (b\<lparr>nextChan := nextChan b + 1,
             readReqs := readReqs b @ [\<lparr>req_p = p, req_r = nextChan b\<rparr>]\<rparr>)"
  using handleReadReq_empty[of "b\<lparr>nextChan := nextChan b + 1\<rparr>" "\<lparr>req_p = p, req_r = nextChan b\<rparr>"]
    assms by simp

lemma Incoming_pending_exact:
  fixes d :: bytes
  assumes "brsp_ok b" "readReqs b = rr # rest"
  shows "\<exists>q. select_case (EvIncoming d e) b =
      Done (b\<lparr>readReqs := rest, inQueue := q,
              sent := sent b @ [ReadReply (req_r rr)
                 \<lparr>res_n = int (min (length (req_p rr)) (min 20 (length d))), res_err = e\<rparr>
                 (take (min (length (req_p rr)) (min 20 (length d))) d @
                  drop (min (length (req_p rr)) (min 20 (length d))) (req_p rr))]\<rparr>) \<and>
      q_inv q \<and>
      contents q = contents (inQueue b) @
        drop (min (length (req_p rr)) (min 20 (length d))) (take 20 d)"
proof -
  have qi: "q_inv (inQueue b)" using assms(1) by (simp add: brsp_ok_def data_ok_def)
  have un: "req_r rr \<notin> answered b"
    using assms by (auto simp: brsp_ok_def chans_ok_def)
  show ?thesis using handleIncomingData_pending[OF qi assms(2) un, of d e] by auto
qed

text \<open>
  Claim C6. In every state of the invariant: a notification that finds pending reads
  answers the oldest one (the head of \<open>readReqs\<close>) and leaves the others in their
  order; the reply carries the notification's error and the count \<open>n\<close>, the smaller of
  the length of the read's buffer and the length of the notification (at most 20 bytes of
  a notification are kept), the buffer then starts with the first \<open>n\<close> bytes of the
  notification, and the bytes that did not fit are appended to the inbound queue. A read
  that finds no inbound data is put at the end of the list, gets no reply yet and leaves
  the queue as it is. So two reads issued with no data available, followed by two
  notifications, are answered in the order they were issued, the first with the bytes of
  the first notification and the second with those of the second.
\<close>

theorem read_fifo:
  fixes d d1 d2 :: bytes
  assumes "brsp_ok b"
  shows "(readReqs b = rr # rest \<longrightarrow>
            (\<exists>b'. select_case (EvIncoming d e) b = Done b' \<and>
               sent b' = sent b @
                 [ReadReply (req_r rr)
                    \<lparr>res_n = int (min (length (req_p rr)) (min 20 (length d))), res_err = e\<rparr>
                    (take (min (length (req_p rr)) (min 20 (length d))) d @
                     drop (min (length (req_p rr)) (min 20 (length d))) (req_p rr))] \<and>
               readReqs b' = rest \<and>
               contents (inQueue b') = contents (inQueue b) @
                 drop (min (length (req_p rr)) (min 20 (length d))) (take 20 d))) \<and>
         (queued (inQueue b) = 0 \<longrightarrow>
            (\<exists>b'. select_case (EvReadReq p) b = Done b' \<and> sent b' = sent b \<and>
               readReqs b' = readReqs b @ [\<lparr>req_p = p, req_r = nextChan b\<rparr>] \<and>
               inQueue b' = inQueue b)) \<and>
         (queued (inQueue b) = 0 \<and> readReqs b = [] \<longrightarrow>
            (\<exists>b'.
               loop [EvReadReq p1, EvReadReq p2, EvIncoming d1 e1, EvIncoming d2 e2] (Running b)
                 = Running b' \<and>
               sent b' = sent b @
                 [ReadReply (nextChan b)
                    \<lparr>res_n = int (min (length p1) (min 20 (length d1))), res_err = e1\<rparr>
                    (take (min (length p1) (min 20 (length d1))) d1 @
                     drop (min (length p1) (min 20 (length d1))) p1),
                  ReadReply (nextChan b + 1)
                    \<lparr>res_n = int (min (length p2) (min 20 (length d2))), res_err = e2\<rparr>
                    (take (min (length p2) (min 20 (length d2))) d2 @
                     drop (min (length p2) (min 20 (length d2))) p2)] \<and>
               readReqs b' = [] \<and>
               contents (inQueue b') =
                 drop (min (length p1) (min 20 (length d1))) (take 20 d1) @
                 drop (min (length p2) (min 20 (length d2))) (take 20 d2)))"
proof (intro conjI impI)
  assume "readReqs b = rr # rest"
  from Incoming_pending_exact[OF assms this, of d e]
  show "\<exists>b'. select_case (EvIncoming d e) b = Done b' \<and>
               sent b' = sent b @
                 [ReadReply (req_r rr)
                    \<lparr>res_n = int (min (length (req_p rr)) (min 20 (length d))), res_err = e\<rparr>
                    (take (min (length (req_p rr)) (min 20 (length d))) d @
                     drop (min (length (req_p rr)) (min 20 (length d))) (req_p rr))] \<and>
               readReqs b' = rest \<and>
               contents (inQueue b') = contents (inQueue b) @
                 drop (min (length (req_p rr)) (min 20 (length d))) (take 20 d)"
    by auto
next
  assume "queued (inQueue b) = 0"
  from ReadReq_empty[OF this, of p]
  show "\<exists>b'. select_case (EvReadReq p) b = Done b' \<and> sent b' = sent b \<and>
               readReqs b' = readReqs b @ [\<lparr>req_p = p, req_r = nextChan b\<rparr>] \<and>
               inQueue b' = inQueue b"
    by simp
next
  assume a: "queued (inQueue b) = 0 \<and> readReqs b = []"
  have qb: "q_inv (inQueue b)" using assms by (simp add: brsp_ok_def data_ok_def)
  have c0: "contents (inQueue b) = []" using queued_contents[OF qb] a by simp
  define r1 r2 where "r1 = \<lparr>req_p = p1, req_r = nextChan b\<rparr>"
    and "r2 = \<lparr>req_p = p2, req_r = nextChan b + 1\<rparr>"
  define b1 where "b1 = b\<lparr>nextChan := nextChan b + 1, readReqs := [r1]\<rparr>"
  define b2 where "b2 = b1\<lparr>nextChan := nextChan b + 2, readReqs := [r1, r2]\<rparr>"
  have e1: "select_case (EvReadReq p1) b = Done b1"
    using ReadReq_empty[of b p1] a by (simp add: b1_def r1_def)
  have ok1: "brsp_ok b1" by (rule ok_ReadReq[OF assms e1])
  have "queued (inQueue b1) = 0" using a by (simp add: b1_def)
  from ReadReq_empty[OF this, of p2]
  have e2: "select_case (EvReadReq p2) b1 = Done b2"
    by (simp add: b2_def b1_def r2_def)
  have ok2: "brsp_ok b2" by (rule ok_ReadReq[OF ok1 e2])
  have rr2: "readReqs b2 = r1 # [r2]" by (simp add: b2_def)
  define n1 where "n1 = min (length p1) (min 20 (length d1))"
  obtain q3 where e3: "select_case (EvIncoming d1 e1) b2 =
      Done (b2\<lparr>readReqs := [r2], inQueue := q3,
              sent := sent b2 @ [ReadReply (req_r r1) \<lparr>res_n = int n1, res_err = e1\<rparr>
                 (take n1 d1 @ drop n1 (req_p r1))]\<rparr>)"
      and q3: "contents q3 = contents (inQueue b2) @ drop n1 (take 20 d1)"
    using Incoming_pending_exact[OF ok2 rr2, of d1 e1] unfolding n1_def r1_def by auto
  define b3 where "b3 = b2\<lparr>readReqs := [r2], inQueue := q3,
              sent := sent b2 @ [ReadReply (req_r r1) \<lparr>res_n = int n1, res_err = e1\<rparr>
                 (take n1 d1 @ drop n1 (req_p r1))]\<rparr>"
  have ok3: "brsp_ok b3" using ok_Incoming[OF ok2] e3 unfolding b3_def by blast
  have rr3: "readReqs b3 = r2 # []" by (simp add: b3_def)
  define n2 where "n2 = min (length p2) (min 20 (length d2))"
  obtain q4 where e4: "select_case (EvIncoming d2 e2) b3 =
      Done (b3\<lparr>readReqs := [], inQueue := q4,
              sent := sent b3 @ [ReadReply (req_r r2) \<lparr>res_n = int n2, res_err = e2\<rparr>
                 (take n2 d2 @ drop n2 (req_p r2))]\<rparr>)"
      and q4: "contents q4 = contents (inQueue b3) @ drop n2 (take 20 d2)"
    using Incoming_pending_exact[OF ok3 rr3, of d2 e2] unfolding n2_def r2_def by auto
  define b4 where "b4 = b3\<lparr>readReqs := [], inQueue := q4,
              sent := sent b3 @ [ReadReply (req_r r2) \<lparr>res_n = int n2, res_err = e2\<rparr>
                 (take n2 d2 @ drop n2 (req_p r2))]\<rparr>"
  have st: "loop_step (Running b) (EvReadReq p1) = Running b1"
      "loop_step (Running b1) (EvReadReq p2) = Running b2"
      "loop_step (Running b2) (EvIncoming d1 e1) = Running b3"
      "loop_step (Running b3) (EvIncoming d2 e2) = Running b4"
    using e1 e2 e3[folded b3_def] e4[folded b4_def]
    by (simp_all only: loop_step_Done event.distinct not_False_eq_True)
  have l: "loop [EvReadReq p1, EvReadReq p2, EvIncoming d1 e1, EvIncoming d2 e2] (Running b)
      = Running b4"
    by (simp only: loop_Cons loop_Nil st)
  have s4: "sent b4 = sent b @
      [ReadReply (nextChan b) \<lparr>res_n = int n1, res_err = e1\<rparr> (take n1 d1 @ drop n1 p1),
       ReadReply (nextChan b + 1) \<lparr>res_n = int n2, res_err = e2\<rparr> (take n2 d2 @ drop n2 p2)]"
    by (simp add: b4_def b3_def b2_def b1_def r1_def r2_def)
  have c4: "contents (inQueue b4) = drop n1 (take 20 d1) @ drop n2 (take 20 d2)"
    using q3 q4 c0 by (simp add: b4_def b3_def b2_def b1_def)
  have "readReqs b4 = []" by (simp add: b4_def)
  then show "\<exists>b'.
               loop [EvReadReq p1, EvReadReq p2, EvIncoming d1 e1, EvIncoming d2 e2] (Running b)
                 = Running b' \<and>
               sent b' = sent b @
                 [ReadReply (nextChan b)
                    \<lparr>res_n = int (min (length p1) (min 20 (length d1))), res_err = e1\<rparr>
                    (take (min (length p1) (min 20 (length d1))) d1 @
                     drop (min (length p1) (min 20 (length d1))) p1),
                  ReadReply (nextChan b + 1)
                    \<lparr>res_n = int (min (length p2) (min 20 (length d2))), res_err = e2\<rparr>
                    (take (min (length p2) (min 20 (length d2))) d2 @
                     drop (min (length p2) (min 20 (length d2))) p2)] \<and>
               readReqs b' = [] \<and>
               contents (inQueue b') =
                 drop (min (length p1) (min 20 (length d1))) (take 20 d1) @
                 drop (min (length p2) (min 20 (length d2))) (take 20 d2)"
    using l s4 c4 unfolding n1_def n2_def by blast
qed

lemma queued_init [simp]: "queued (inQueue initBRSP) = 0" "queued (outQueue initBRSP) = 0"
  by (simp_all add: initBRSP_def queued_def zeroQueue_def)

lemma brsp_ok_one_read:
  "brsp_ok (initBRSP\<lparr>readReqs := [\<lparr>req_p = [0, 0], req_r = 0\<rparr>], nextChan := 1\<rparr>)"
  by (simp add: brsp_ok_def data_ok_def chans_ok_def initBRSP_def q_inv_zero contents_zero
        chunk_ok_def answered_def)

text \<open>
  From the initial state for the two reads (the third byte of the first notification
  does not fit and stays queued), and from a state with one pending read for the single
  notification.
\<close>

theorem read_fifo_witness:
  "(\<exists>b'.
      loop [EvReadReq [0, 0], EvReadReq [0, 0, 0], EvIncoming [1, 2, 3] None, EvIncoming [4] None]
        (Running initBRSP) = Running b' \<and>
      sent b' = [ReadReply 0 \<lparr>res_n = 2, res_err = None\<rparr> [1, 2],
                 ReadReply 1 \<lparr>res_n = 1, res_err = None\<rparr> [4, 0, 0]] \<and>
      readReqs b' = [] \<and> contents (inQueue b') = [3]) \<and>
   (\<exists>b'.
      select_case (EvIncoming [7] None)
        (initBRSP\<lparr>readReqs := [\<lparr>req_p = [0, 0], req_r = 0\<rparr>], nextChan := 1\<rparr>) = Done b' \<and>
      sent b' = [ReadReply 0 \<lparr>res_n = 1, res_err = None\<rparr> [7, 0]] \<and> readReqs b' = [] \<and>
      contents (inQueue b') = [])"
proof -
  have i: "queued (inQueue initBRSP) = 0 \<and> readReqs initBRSP = []"
    by (simp add: initBRSP_def queued_def zeroQueue_def)
  have i2: "sent initBRSP = []" "nextChan initBRSP = 0"
    by (simp_all add: initBRSP_def)
  let ?b = "initBRSP\<lparr>readReqs := [\<lparr>req_p = [0, 0], req_r = 0\<rparr>], nextChan := 1\<rparr>"
  have j: "readReqs ?b = \<lparr>req_p = [0, 0], req_r = 0\<rparr> # []"
    by (simp add: initBRSP_def)
  have j2: "sent ?b = []" "contents (inQueue ?b) = []"
    by (simp_all add: initBRSP_def contents_zero)
  have a: "\<exists>b'.
      loop [EvReadReq [0, 0], EvReadReq [0, 0, 0], EvIncoming [1, 2, 3] None, EvIncoming [4] None]
        (Running initBRSP) = Running b' \<and>
      sent b' = [ReadReply 0 \<lparr>res_n = 2, res_err = None\<rparr> [1, 2],
                 ReadReply 1 \<lparr>res_n = 1, res_err = None\<rparr> [4, 0, 0]] \<and>
      readReqs b' = [] \<and> contents (inQueue b') = [3]"
    using read_fifo[OF brsp_ok_init, THEN conjunct2, THEN conjunct2, THEN mp, OF i,
        of "[0, 0]" "[0, 0, 0]" "[1, 2, 3]" None "[4]" None]
    unfolding i2 by simp
  have b: "\<exists>b'.
      select_case (EvIncoming [7] None) ?b = Done b' \<and>
      sent b' = [ReadReply 0 \<lparr>res_n = 1, res_err = None\<rparr> [7, 0]] \<and> readReqs b' = [] \<and>
      contents (inQueue b') = []"
    using read_fifo[OF brsp_ok_one_read, THEN conjunct1, THEN mp, OF j, of "[7]" None]
    unfolding j2 by simp
  show ?thesis using a b by blast
qed

section \<open>The two error slots\<close>

lemma Incoming_idle:
  assumes "brsp_ok b" "readReqs b = []"
  shows "\<exists>q. select_case (EvIncoming d e) b =
      Done (b\<lparr>inQueue := q, readError := (if e \<noteq> None then e else readError b)\<rparr>) \<and>
      q_inv q \<and> contents q = contents (inQueue b) @ take 20 d"
proof -
  have qi: "q_inv (inQueue b)" using assms(1) by (simp add: brsp_ok_def data_ok_def)
  show ?thesis using handleIncomingData_idle[OF qi assms(2), of d e] by simp
qed

lemma ReadReq_queued:
  assumes "brsp_ok b" "0 < queued (inQueue b)"
  shows "\<exists>q n buf. select_case (EvReadReq p) b =
      Done (b\<lparr>nextChan := nextChan b + 1, inQueue := q,
              sent := sent b @ [ReadReply (nextChan b) \<lparr>res_n = n, res_err = readError b\<rparr> buf],
              readError := None\<rparr>)"
proof -
  let ?b = "b\<lparr>nextChan := nextChan b + 1\<rparr>"
  let ?r = "\<lparr>req_p = p, req_r = nextChan b\<rparr>"
  have qi: "q_inv (inQueue ?b)" "0 < queued (inQueue ?b)"
    using assms by (simp_all add: brsp_ok_def data_ok_def)
  have fr: "req_r ?r \<notin> answered ?b"
    using assms(1) by (auto simp: brsp_ok_def chans_ok_def answered_def)
  from handleReadReq_queued[OF qi fr] show ?thesis by auto
qed

text \<open>
  Claim C5 as amended. In every state of the invariant: a notification that arrives with
  an error while no read is pending puts the error into the single slot \<open>readError\<close>
  (whatever the slot held) and its bytes into the queue; one without error leaves the
  slot as it is. A read that finds bytes queued is answered with the error in the slot,
  whichever bytes it drains, and clears the slot; a read that finds nothing queued is not
  answered and leaves the slot as it is. A notification that finds a pending read answers
  the oldest one with its own error and leaves the slot as it is.
\<close>

theorem read_error_slot:
  fixes d :: bytes
  assumes "brsp_ok b"
  shows "(readReqs b = [] \<longrightarrow>
            (\<exists>b'. select_case (EvIncoming d (Some e)) b = Done b' \<and>
               readError b' = Some e \<and> sent b' = sent b \<and>
               contents (inQueue b') = contents (inQueue b) @ take 20 d)) \<and>
         (readReqs b = [] \<longrightarrow>
            (\<exists>b'. select_case (EvIncoming d None) b = Done b' \<and>
               readError b' = readError b \<and> sent b' = sent b)) \<and>
         (0 < queued (inQueue b) \<longrightarrow>
            (\<exists>b' n buf. select_case (EvReadReq p) b = Done b' \<and>
               sent b' = sent b @
                 [ReadReply (nextChan b) \<lparr>res_n = n, res_err = readError b\<rparr> buf] \<and>
               readError b' = None)) \<and>
         (queued (inQueue b) = 0 \<longrightarrow>
            (\<exists>b'. select_case (EvReadReq p) b = Done b' \<and>
               sent b' = sent b \<and> readError b' = readError b)) \<and>
         (readReqs b = rr # rest \<longrightarrow>
            (\<exists>b' n buf. select_case (EvIncoming d e') b = Done b' \<and>
               sent b' = sent b @ [ReadReply (req_r rr) \<lparr>res_n = n, res_err = e'\<rparr> buf] \<and>
               readError b' = readError b))"
proof (intro conjI impI)
  assume "readReqs b = []"
  from Incoming_idle[OF assms this, of d "Some e"]
  show "\<exists>b'. select_case (EvIncoming d (Some e)) b = Done b' \<and>
               readError b' = Some e \<and> sent b' = sent b \<and>
               contents (inQueue b') = contents (inQueue b) @ take 20 d"
    by auto
next
  assume "readReqs b = []"
  from Incoming_idle[OF assms this, of d None]
  show "\<exists>b'. select_case (EvIncoming d None) b = Done b' \<and>
               readError b' = readError b \<and> sent b' = sent b"
    by auto
next
  assume "0 < queued (inQueue b)"
  from ReadReq_queued[OF assms this, of p]
  show "\<exists>b' n buf. select_case (EvReadReq p) b = Done b' \<and>
               sent b' = sent b @
                 [ReadReply (nextChan b) \<lparr>res_n = n, res_err = readError b\<rparr> buf] \<and>
               readError b' = None"
    by auto
next
  assume "queued (inQueue b) = 0"
  from ReadReq_empty[OF this, of p]
  show "\<exists>b'. select_case (EvReadReq p) b = Done b' \<and>
               sent b' = sent b \<and> readError b' = readError b"
    by simp
next
  assume "readReqs b = rr # rest"
  from Incoming_pending[OF assms this, of d e']
  show "\<exists>b' n buf. select_case (EvIncoming d e') b = Done b' \<and>
               sent b' = sent b @ [ReadReply (req_r rr) \<lparr>res_n = n, res_err = e'\<rparr> buf] \<and>
               readError b' = readError b"
    by auto
qed

text \<open>
  From the initial state: a notification with an error, then a read that reports it; and
  from a state with one pending read.
\<close>

theorem read_error_slot_witness:
  "(\<exists>b' b'' n buf.
      select_case (EvIncoming [1, 2] (Some (TransportError 7))) initBRSP = Done b' \<and>
      readError b' = Some (TransportError 7) \<and> 0 < queued (inQueue b') \<and>
      select_case (EvReadReq [0]) b' = Done b'' \<and>
      sent b'' = sent b' @
        [ReadReply (nextChan b') \<lparr>res_n = n, res_err = Some (TransportError 7)\<rparr> buf] \<and>
      readError b'' = None) \<and>
   (\<exists>b' n buf.
      select_case (EvIncoming [7] (Some (TransportError 8)))
        (initBRSP\<lparr>readReqs := [\<lparr>req_p = [0, 0], req_r = 0\<rparr>], nextChan := 1\<rparr>) = Done b' \<and>
      sent b' = [ReadReply 0 \<lparr>res_n = n, res_err = Some (TransportError 8)\<rparr> buf] \<and>
      readError b' = None)"
proof -
  have i: "readReqs initBRSP = []" "contents (inQueue initBRSP) = []"
    by (simp_all add: initBRSP_def contents_zero)
  have "\<exists>b'. select_case (EvIncoming [1, 2] (Some (TransportError 7))) initBRSP = Done b' \<and>
      readError b' = Some (TransportError 7) \<and> sent b' = sent initBRSP \<and>
      contents (inQueue b') = contents (inQueue initBRSP) @ take 20 [1, 2]"
    using read_error_slot[OF brsp_ok_init, of "[1, 2]" "TransportError 7"] i(1) by blast
  then obtain b' where b': "select_case (EvIncoming [1, 2] (Some (TransportError 7))) initBRSP = Done b'"
      "readError b' = Some (TransportError 7)" "contents (inQueue b') = [1, 2]"
    unfolding i(2) by auto
  have ok: "brsp_ok b'" by (rule ok_Incoming[OF brsp_ok_init b'(1)])
  then have "q_inv (inQueue b')" by (simp add: brsp_ok_def data_ok_def)
  from queued_contents[OF this] b'(3) have q: "0 < queued (inQueue b')" by simp
  have "\<exists>b'' n buf. select_case (EvReadReq [0]) b' = Done b'' \<and>
      sent b'' = sent b' @
        [ReadReply (nextChan b') \<lparr>res_n = n, res_err = readError b'\<rparr> buf] \<and>
      readError b'' = None"
    using read_error_slot[OF ok, of _ _ "[0]"] q by blast
  then obtain b'' n buf where "select_case (EvReadReq [0]) b' = Done b''"
      "sent b'' = sent b' @
        [ReadReply (nextChan b') \<lparr>res_n = n, res_err = Some (TransportError 7)\<rparr> buf]"
      "readError b'' = None"
    unfolding b'(2) by blast
  then have a: "\<exists>b' b'' n buf.
      select_case (EvIncoming [1, 2] (Some (TransportError 7))) initBRSP = Done b' \<and>
      readError b' = Some (TransportError 7) \<and> 0 < queued (inQueue b') \<and>
      select_case (EvReadReq [0]) b' = Done b'' \<and>
      sent b'' = sent b' @
        [ReadReply (nextChan b') \<lparr>res_n = n, res_err = Some (TransportError 7)\<rparr> buf] \<and>
      readError b'' = None"
    using b' q by blast
  let ?b = "initBRSP\<lparr>readReqs := [\<lparr>req_p = [0, 0], req_r = 0\<rparr>], nextChan := 1\<rparr>"
  have j: "readReqs ?b = \<lparr>req_p = [0, 0], req_r = 0\<rparr> # []" "sent ?b = []" "readError ?b = None"
    by (simp_all add: initBRSP_def)
  have "\<exists>b' n buf.
      select_case (EvIncoming [7] (Some (TransportError 8))) ?b = Done b' \<and>
      sent b' = sent ?b @
        [ReadReply (req_r \<lparr>req_p = [0, 0], req_r = 0\<rparr>)
           \<lparr>res_n = n, res_err = Some (TransportError 8)\<rparr> buf] \<and>
      readError b' = readError ?b"
    using read_error_slot[OF brsp_ok_one_read, of "[7]" _ _ "\<lparr>req_p = [0, 0], req_r = 0\<rparr>" "[]"
        "Some (TransportError 8)"] j(1) by blast
  then have b: "\<exists>b' n buf.
      select_case (EvIncoming [7] (Some (TransportError 8))) ?b = Done b' \<and>
      sent b' = [ReadReply 0 \<lparr>res_n = n, res_err = Some (TransportError 8)\<rparr> buf] \<and>
      readError b' = None"
    unfolding j(2,3) by simp
  show ?thesis using a b by blast
qed













section \<open>Opening needs the service and the three characteristics\<close>

lemma uuid_distinct:
  "brspMode_UUID \<noteq> brspRx_UUID" "brspMode_UUID \<noteq> brspTx_UUID" "brspRx_UUID \<noteq> brspTx_UUID"
  by (simp_all add: brspMode_UUID_def brspRx_UUID_def brspTx_UUID_def)

lemma find_service_eq:
  "find_service svcs h =
     (case List.find (\<lambda>s. svc_uuid s = brspService_UUID) svcs of
        None \<Rightarrow> h | Some s \<Rightarrow> h\<lparr>brspService := Some s\<rparr>)"
  by (induction svcs) auto

lemma assign_chars_service [simp]: "brspService (assign_chars cs h) = brspService h"
  by (induction cs arbitrary: h) auto

lemma assign_chars_mode:
  "brspMode (assign_chars cs h) = None \<longleftrightarrow>
     brspMode h = None \<and> (\<forall>c \<in> set cs. chr_uuid c \<noteq> brspMode_UUID)"
  by (induction cs arbitrary: h) auto

lemma assign_chars_rx:
  "brspRx (assign_chars cs h) = None \<longleftrightarrow>
     brspRx h = None \<and> (\<forall>c \<in> set cs. chr_uuid c \<noteq> brspRx_UUID)"
  using uuid_distinct by (induction cs arbitrary: h) auto

lemma assign_chars_tx:
  "brspTx (assign_chars cs h) = None \<longleftrightarrow>
     brspTx h = None \<and> (\<forall>c \<in> set cs. chr_uuid c \<noteq> brspTx_UUID)"
  using uuid_distinct by (induction cs arbitrary: h) auto

lemma not_in_uuids:
  "u \<notin> chr_uuid ` set chars \<longleftrightarrow> (\<forall>c \<in> set chars. chr_uuid c \<noteq> u)"
  by auto

lemma discover_no_service:
  assumes "DiscoverServices P [brspService_UUID] x = ((svcs, None), x1)"
    "\<forall>s \<in> set svcs. svc_uuid s \<noteq> brspService_UUID"
  shows "discover P noHandles x = (Some ErrNotBRSP, noHandles, x1)"
proof -
  have "List.find (\<lambda>s. svc_uuid s = brspService_UUID) svcs = None"
    using assms(2) by (simp add: find_None_iff)
  then show ?thesis using assms(1)
    by (simp add: discover_def find_service_eq noHandles_def)
qed

lemma discover_missing_char:
  assumes "DiscoverServices P [brspService_UUID] x = ((svcs, None), x1)"
    "List.find (\<lambda>s. svc_uuid s = brspService_UUID) svcs = Some s"
    "DiscoverCharacteristics P [brspMode_UUID, brspRx_UUID, brspTx_UUID] s x1 = ((chars, None), x2)"
    "brspMode_UUID \<notin> chr_uuid ` set chars \<or> brspRx_UUID \<notin> chr_uuid ` set chars \<or>
     brspTx_UUID \<notin> chr_uuid ` set chars"
  shows "fst (discover P noHandles x) = Some ErrNotBRSP \<and> snd (snd (discover P noHandles x)) = x2"
proof -
  let ?h = "noHandles\<lparr>brspService := Some s\<rparr>"
  have "brspMode (assign_chars chars ?h) = None \<or> brspRx (assign_chars chars ?h) = None \<or>
        brspTx (assign_chars chars ?h) = None"
    using assms(4) unfolding assign_chars_mode assign_chars_rx assign_chars_tx not_in_uuids
    by (simp add: noHandles_def)
  then show ?thesis using assms(1,2,3)
    by (simp add: discover_def find_service_eq Let_def)
qed

lemma discover_ok:
  assumes "fst (discover P noHandles x) = None"
  shows "\<exists>svcs x1 s chars x2.
     DiscoverServices P [brspService_UUID] x = ((svcs, None), x1) \<and>
     List.find (\<lambda>s. svc_uuid s = brspService_UUID) svcs = Some s \<and>
     DiscoverCharacteristics P [brspMode_UUID, brspRx_UUID, brspTx_UUID] s x1 = ((chars, None), x2) \<and>
     brspMode_UUID \<in> chr_uuid ` set chars \<and> brspRx_UUID \<in> chr_uuid ` set chars \<and>
     brspTx_UUID \<in> chr_uuid ` set chars"
proof -
  obtain svcs err x1 where ds: "DiscoverServices P [brspService_UUID] x = ((svcs, err), x1)"
    by (metis surj_pair)
  have e1: "err = None" using assms ds by (auto simp: discover_def split: if_splits)
  show ?thesis
  proof (cases "List.find (\<lambda>s. svc_uuid s = brspService_UUID) svcs")
    case None
    then show ?thesis using assms ds e1 by (simp add: discover_def find_service_eq noHandles_def)
  next
    case (Some s)
    obtain chars err2 x2 where dc:
      "DiscoverCharacteristics P [brspMode_UUID, brspRx_UUID, brspTx_UUID] s x1 = ((chars, err2), x2)"
      by (metis surj_pair)
    have e2: "err2 = None" using assms ds e1 Some dc
      by (auto simp: discover_def find_service_eq Let_def split: if_splits prod.splits)
    let ?h = "noHandles\<lparr>brspService := Some s\<rparr>"
    have "\<not> (brspMode (assign_chars chars ?h) = None \<or> brspRx (assign_chars chars ?h) = None \<or>
        brspTx (assign_chars chars ?h) = None)"
      using assms ds e1 Some dc e2
      by (auto simp: discover_def find_service_eq Let_def split: if_splits prod.splits)
    then have "brspMode_UUID \<in> chr_uuid ` set chars \<and> brspRx_UUID \<in> chr_uuid ` set chars \<and>
        brspTx_UUID \<in> chr_uuid ` set chars"
      unfolding assign_chars_mode assign_chars_rx assign_chars_tx
      by (simp add: noHandles_def) force
    then show ?thesis using ds e1 Some dc e2 by blast
  qed
qed

lemma init_error: "fst (discover P h x) = Some e \<Longrightarrow>
   fst (init P h x) = Some e \<and> snd (snd (init P h x)) = snd (snd (discover P h x))"
  by (cases "discover P h x") (auto simp: init_def)

lemma init_ok: "fst (init P h x) = None \<Longrightarrow> fst (discover P h x) = None"
  by (cases "discover P h x") (auto simp: init_def split: if_splits)

lemma Open_error:
  "fst (init P noHandles x) = Some e \<Longrightarrow>
   OpenBRSP P x = (None, Some e, [], snd (snd (init P noHandles x)))"
  by (cases "init P noHandles x") (auto simp: OpenBRSP_def)

lemma Open_ok:
  "fst (OpenBRSP P x) \<noteq> None \<Longrightarrow> fst (init P noHandles x) = None"
  by (cases "init P noHandles x") (auto simp: OpenBRSP_def split: if_splits)

text \<open>
  Claim C10. \<open>OpenBRSP\<close> returns a bridge only when the service discovery reported a
  service with the fixed service UUID and the characteristic discovery on that service
  reported characteristics with each of the three fixed UUIDs. When the service discovery
  succeeds without such a service, or the characteristic discovery succeeds with one of
  the three missing, \<open>OpenBRSP\<close> returns no bridge, the error \<open>ErrNotBRSP\<close>, and
  starts no goroutine.
\<close>

theorem open_needs_all_four:
  "(fst (OpenBRSP P x) \<noteq> None \<longrightarrow>
      (\<exists>svcs x1 s chars x2.
         DiscoverServices P [brspService_UUID] x = ((svcs, None), x1) \<and>
         List.find (\<lambda>s. svc_uuid s = brspService_UUID) svcs = Some s \<and>
         DiscoverCharacteristics P [brspMode_UUID, brspRx_UUID, brspTx_UUID] s x1
           = ((chars, None), x2) \<and>
         brspMode_UUID \<in> chr_uuid ` set chars \<and> brspRx_UUID \<in> chr_uuid ` set chars \<and>
         brspTx_UUID \<in> chr_uuid ` set chars)) \<and>
   (DiscoverServices P [brspService_UUID] x = ((svcs, None), x1) \<and>
    (\<forall>s \<in> set svcs. svc_uuid s \<noteq> brspService_UUID) \<longrightarrow>
      OpenBRSP P x = (None, Some ErrNotBRSP, [], x1)) \<and>
   (DiscoverServices P [brspService_UUID] x = ((svcs, None), x1) \<and>
    List.find (\<lambda>s. svc_uuid s = brspService_UUID) svcs = Some s \<and>
    DiscoverCharacteristics P [brspMode_UUID, brspRx_UUID, brspTx_UUID] s x1
      = ((chars, None), x2) \<and>
    (brspMode_UUID \<notin> chr_uuid ` set chars \<or> brspRx_UUID \<notin> chr_uuid ` set chars \<or>
     brspTx_UUID \<notin> chr_uuid ` set chars) \<longrightarrow>
      OpenBRSP P x = (None, Some ErrNotBRSP, [], x2))"
proof (intro conjI impI)
  assume o: "fst (OpenBRSP P x) \<noteq> None"
  have "fst (discover P noHandles x) = None"
    by (rule init_ok[OF Open_ok[OF o]])
  then show "\<exists>svcs x1 s chars x2.
         DiscoverServices P [brspService_UUID] x = ((svcs, None), x1) \<and>
         List.find (\<lambda>s. svc_uuid s = brspService_UUID) svcs = Some s \<and>
         DiscoverCharacteristics P [brspMode_UUID, brspRx_UUID, brspTx_UUID] s x1
           = ((chars, None), x2) \<and>
         brspMode_UUID \<in> chr_uuid ` set chars \<and> brspRx_UUID \<in> chr_uuid ` set chars \<and>
         brspTx_UUID \<in> chr_uuid ` set chars"
    by (rule discover_ok)
next
  assume a: "DiscoverServices P [brspService_UUID] x = ((svcs, None), x1) \<and>
    (\<forall>s \<in> set svcs. svc_uuid s \<noteq> brspService_UUID)"
  have d: "discover P noHandles x = (Some ErrNotBRSP, noHandles, x1)"
    by (rule discover_no_service[OF a[THEN conjunct1] a[THEN conjunct2]])
  then have "fst (init P noHandles x) = Some ErrNotBRSP \<and> snd (snd (init P noHandles x)) = x1"
    using init_error[of P noHandles x ErrNotBRSP] by simp
  then show "OpenBRSP P x = (None, Some ErrNotBRSP, [], x1)"
    using Open_error[of P x ErrNotBRSP] by simp
next
  assume a: "DiscoverServices P [brspService_UUID] x = ((svcs, None), x1) \<and>
    List.find (\<lambda>s. svc_uuid s = brspService_UUID) svcs = Some s \<and>
    DiscoverCharacteristics P [brspMode_UUID, brspRx_UUID, brspTx_UUID] s x1
      = ((chars, None), x2) \<and>
    (brspMode_UUID \<notin> chr_uuid ` set chars \<or> brspRx_UUID \<notin> chr_uuid ` set chars \<or>
     brspTx_UUID \<notin> chr_uuid ` set chars)"
  have d: "fst (discover P noHandles x) = Some ErrNotBRSP \<and>
      snd (snd (discover P noHandles x)) = x2"
    by (rule discover_missing_char[OF a[THEN conjunct1] a[THEN conjunct2, THEN conjunct1]
          a[THEN conjunct2, THEN conjunct2, THEN conjunct1]
          a[THEN conjunct2, THEN conjunct2, THEN conjunct2]])
  then have "fst (init P noHandles x) = Some ErrNotBRSP \<and> snd (snd (init P noHandles x)) = x2"
    using init_error[of P noHandles x ErrNotBRSP] by simp
  then show "OpenBRSP P x = (None, Some ErrNotBRSP, [], x2)"
    using Open_error[of P x ErrNotBRSP] by simp
qed

text \<open>
  Three collaborators: one with the service and all three characteristics, one with
  nothing, one with the service and two characteristics.
\<close>

theorem open_needs_all_four_witness:
  "fst (OpenBRSP (fixedPeripheral [\<lparr>svc_uuid = brspService_UUID, svc_handle = 1\<rparr>]
          [\<lparr>chr_uuid = brspMode_UUID, chr_handle = 2\<rparr>, \<lparr>chr_uuid = brspRx_UUID, chr_handle = 3\<rparr>,
           \<lparr>chr_uuid = brspTx_UUID, chr_handle = 4\<rparr>]) ()) \<noteq> None \<and>
   OpenBRSP (fixedPeripheral [] []) () = (None, Some ErrNotBRSP, [], ()) \<and>
   OpenBRSP (fixedPeripheral [\<lparr>svc_uuid = brspService_UUID, svc_handle = 1\<rparr>]
          [\<lparr>chr_uuid = brspMode_UUID, chr_handle = 2\<rparr>, \<lparr>chr_uuid = brspRx_UUID, chr_handle = 3\<rparr>])
       () = (None, Some ErrNotBRSP, [], ())"
proof -
  let ?s = "\<lparr>svc_uuid = brspService_UUID, svc_handle = 1\<rparr>"
  let ?two = "[\<lparr>chr_uuid = brspMode_UUID, chr_handle = 2\<rparr>, \<lparr>chr_uuid = brspRx_UUID, chr_handle = 3\<rparr>]"
  let ?three = "?two @ [\<lparr>chr_uuid = brspTx_UUID, chr_handle = 4\<rparr>]"
  have ok: "fst (OpenBRSP (fixedPeripheral [?s] ?three) ()) \<noteq> None"
    using uuid_distinct
    by (simp add: OpenBRSP_def init_def discover_def fixedPeripheral_def noHandles_def)
  have "\<exists>svcs x1 s chars x2.
         DiscoverServices (fixedPeripheral [?s] ?three) [brspService_UUID] () = ((svcs, None), x1) \<and>
         List.find (\<lambda>s. svc_uuid s = brspService_UUID) svcs = Some s \<and>
         DiscoverCharacteristics (fixedPeripheral [?s] ?three)
            [brspMode_UUID, brspRx_UUID, brspTx_UUID] s x1 = ((chars, None), x2) \<and>
         brspMode_UUID \<in> chr_uuid ` set chars \<and> brspRx_UUID \<in> chr_uuid ` set chars \<and>
         brspTx_UUID \<in> chr_uuid ` set chars"
    by (rule open_needs_all_four[THEN conjunct1, THEN mp, OF ok])
  have h2: "DiscoverServices (fixedPeripheral [] []) [brspService_UUID] () = (([], None), ()) \<and>
    (\<forall>s \<in> set []. svc_uuid s \<noteq> brspService_UUID)"
    by (simp add: fixedPeripheral_def)
  have none: "OpenBRSP (fixedPeripheral [] []) () = (None, Some ErrNotBRSP, [], ())"
    by (rule open_needs_all_four[THEN conjunct2, THEN conjunct1, THEN mp, OF h2])
  have h3: "DiscoverServices (fixedPeripheral [?s] ?two) [brspService_UUID] () = (([?s], None), ()) \<and>
    List.find (\<lambda>s. svc_uuid s = brspService_UUID) [?s] = Some ?s \<and>
    DiscoverCharacteristics (fixedPeripheral [?s] ?two) [brspMode_UUID, brspRx_UUID, brspTx_UUID] ?s ()
      = ((?two, None), ()) \<and>
    (brspMode_UUID \<notin> chr_uuid ` set ?two \<or> brspRx_UUID \<notin> chr_uuid ` set ?two \<or>
     brspTx_UUID \<notin> chr_uuid ` set ?two)"
    using uuid_distinct by (auto simp add: fixedPeripheral_def)
  have two: "OpenBRSP (fixedPeripheral [?s] ?two) () = (None, Some ErrNotBRSP, [], ())"
    by (rule open_needs_all_four[THEN conjunct2, THEN conjunct2, THEN mp, OF h3])
  show ?thesis using ok none two by simp
qed

end
